theory Spec2Isabelle
  imports Main
begin

section \<open>The unit-agent event filter\<close>

text \<open>
  A shallow embedding of the uniter's \<open>filter\<close> (package \<open>uniter\<close>, the file that
  declares \<open>type filter struct\<close>). The filter is one goroutine that owns all mutable
  state; each iteration of its \<open>select\<close> is one step of a transition function. Calls
  into the state backend are answered by a record of responses that is a parameter of
  every step, so nothing is assumed about what the backend answers. Everything the loop
  does that another party can observe (backend calls, channel sends, closing a channel)
  is appended to a log kept beside the struct's fields.
\<close>

subsection \<open>Data\<close>

text \<open>\<open>charm.URL\<close> is compared by value (\<open>*a != *b\<close>); the type is not part of the
  sources at hand, so a URL is its string form.\<close>

type_synonym charm_url = string

text \<open>\<open>state.Life\<close> and \<open>state.ResolvedMode\<close>; the zero values are \<open>Alive\<close> and
  \<open>ResolvedNone\<close>.\<close>

datatype life = Alive | Dying | Dead

datatype resolved_mode = ResolvedNone | ResolvedRetryHooks | ResolvedNoHooks

text \<open>Errors are values. \<open>Errorf\<close> is \<open>fmt.Errorf\<close>; \<open>NotFoundError\<close> is what
  \<open>errors.IsNotFoundError\<close> recognises; the two panics are Go's run-time panics for a
  nil pointer dereference and for closing a closed channel.\<close>

datatype error =
    ErrDying
  | ErrTerminateAgent
  | Errorf string
  | NotFoundError string
  | BackendError string
  | PanicNilDereference
  | PanicCloseOfClosedChannel

fun IsNotFoundError :: "error \<Rightarrow> bool" where
  "IsNotFoundError (NotFoundError _) = True"
| "IsNotFoundError _ = False"

text \<open>Modelled from the spec: the backend's \<open>state.Unit\<close> and \<open>state.Service\<close> handles are
  not part of the sources at hand. A handle caches the document read by the last
  \<open>Refresh\<close>; the spec's UnitSnapshot has life, resolved and an optional current charm
  URL, its ServiceSnapshot has life, an announced charm URL that is always set, and the
  announced force flag.\<close>

record unit_doc =
  unitLife :: life
  unitResolved :: resolved_mode
  unitCharmURL :: "charm_url option"

record service_doc =
  serviceLife :: life
  serviceCharmURL :: charm_url
  serviceForce :: bool

text \<open>Modelled from the spec: a config watcher is bound to the charm URL the unit had
  when the watcher was requested (settings documents are charm-scoped).\<close>

datatype config_watcher = ConfigWatcher charm_url

text \<open>\<open>type serviceCharm struct { url *charm.URL; force bool }\<close>\<close>

record serviceCharm =
  url :: "charm_url option"
  force :: bool

text \<open>What the loop does that is visible outside it, in the order it does it.\<close>

datatype action =
    CallStUnit
  | CallUnitRefresh
  | CallUnitService
  | CallServiceRefresh
  | CallUnitDestroy
  | CallUnitWatch
  | CallServiceWatch
  | CallWatchConfigSettings
  | CallWatchRelations
  | CallConfigwStop
  | CallRelationswStop
  | CallSetCharmURL charm_url
  | CallUnitClearResolved
  | CloseUnitDying
  | SendDidSetCharm
  | SendDidClearResolved
  | SendUpgrade "charm_url option"
  | SendResolved resolved_mode
  | SendConfig
  | SendRelations "int list"

text \<open>
  The fields of \<open>filter\<close> that the loop changes. An \<open>out*\<close> channel field is either nil
  or the corresponding \<open>out*On\<close> channel: the field is \<open>True\<close> when it is the channel
  (the event is armed). \<open>outUnitDyingClosed\<close> says whether \<open>outUnitDying\<close> has been
  closed. \<open>calls\<close> is the log of observable actions.
\<close>

record filter =
  outUnitDyingClosed :: bool
  outConfig :: bool
  outUpgrade :: bool
  outResolved :: bool
  outRelations :: bool
  unit :: "unit_doc option"
  life :: life
  resolved :: resolved_mode
  service :: "service_doc option"
  upgradeFrom :: serviceCharm
  upgradeAvailable :: serviceCharm
  upgrade :: "charm_url option"
  relations :: "int list"
  calls :: "action list"

text \<open>The answers of the backend, of the watchers and of the tomb during one step.
  \<open>tombDying\<close> says whether the dying signal wins the \<open>select\<close> in which the loop
  sends an acknowledgement; \<open>mustErr\<close> is what \<open>watcher.MustErr\<close> returns.\<close>

record backend =
  stUnit :: "error + unit_doc"
  unitRefresh :: "error + unit_doc"
  unitService :: "error + service_doc"
  serviceRefresh :: "error + service_doc"
  unitDestroy :: "error option"
  unitSetCharmURL :: "error option"
  unitWatchConfigSettings :: "error option"
  unitClearResolved :: "error option"
  configwStop :: "error option"
  relationswStop :: "error option"
  mustErr :: error
  tombDying :: bool

text \<open>The variables local to \<open>loop\<close>: \<open>configw\<close> (nil or a watcher), \<open>configChanges\<close>
  (nil or the watcher's channel) and \<open>discardConfig\<close> (nil or \<open>f.discardConfig\<close>).\<close>

record loop_state =
  flt :: filter
  configw :: "config_watcher option"
  configChanges :: bool
  discardConfig :: bool

text \<open>One iteration of the \<open>select\<close>: the chosen case cannot proceed (a send or receive
  on a nil channel), the loop goes round again, or \<open>loop\<close> returns an error.\<close>

datatype outcome = Blocked | Continue loop_state | Return error filter

text \<open>The cases of the \<open>select\<close>, in the order of the source. A receive from a watcher
  carries \<open>ok\<close>; a send case stands for the consumer reading the channel.\<close>

datatype event =
    EvDying
  | EvUnitChanges bool
  | EvServiceChanges bool
  | EvConfigChanges bool
  | EvRelationsChanges "int list" bool
  | EvSendUpgrade
  | EvSendResolved
  | EvSendConfig
  | EvSendRelations
  | EvSetCharm charm_url
  | EvWantForcedUpgrade bool
  | EvWantResolved
  | EvClearResolved
  | EvDiscardConfig

subsection \<open>The filter's methods\<close>

definition did :: "action \<Rightarrow> filter \<Rightarrow> filter" where
  "did a f = f\<lparr>calls := calls f @ [a]\<rparr>"

text \<open>\<open>newFilter\<close>: every channel is made, the \<open>out*\<close> fields and the collected state
  keep their zero values.\<close>

definition newFilter :: filter where
  "newFilter =
     \<lparr>outUnitDyingClosed = False, outConfig = False, outUpgrade = False,
      outResolved = False, outRelations = False, unit = None, life = Alive,
      resolved = ResolvedNone, service = None,
      upgradeFrom = \<lparr>url = None, force = False\<rparr>,
      upgradeAvailable = \<lparr>url = None, force = False\<rparr>,
      upgrade = None, relations = [], calls = []\<rparr>"

text \<open>\<open>upgradeChanged\<close>. A Go method that changes \<open>f\<close> and returns an error is a function
  to the changed struct and the error.\<close>

definition upgradeChanged :: "filter \<Rightarrow> filter \<times> error option" where
  "upgradeChanged f =
     (if life f \<noteq> Alive then (f\<lparr>outUpgrade := False\<rparr>, None)
      else case url (upgradeFrom f) of
        None \<Rightarrow> (f\<lparr>outUpgrade := False\<rparr>, None)
      | Some from_url \<Rightarrow>
          (case url (upgradeAvailable f) of
             None \<Rightarrow> (f, Some PanicNilDereference)
           | Some avail_url \<Rightarrow>
               if avail_url \<noteq> from_url
                  \<and> (force (upgradeAvailable f) \<or> \<not> force (upgradeFrom f))
               then ((if upgrade f = None \<or> upgrade f \<noteq> Some avail_url
                      then f\<lparr>upgrade := Some avail_url\<rparr> else f)\<lparr>outUpgrade := True\<rparr>, None)
               else (f\<lparr>outUpgrade := False\<rparr>, None)))"

text \<open>\<open>unitChanged\<close>, in its three parts: the refresh, the switch on a changed life,
  and the changed resolved mode.\<close>

definition unitChanged_life :: "unit_doc \<Rightarrow> filter \<Rightarrow> filter \<times> error option" where
  "unitChanged_life doc f =
     (if life f \<noteq> unitLife doc then
        (let f1 = f\<lparr>life := unitLife doc\<rparr> in
         case life f1 of
           Dying \<Rightarrow>
             (if outUnitDyingClosed f1 then (f1, Some PanicCloseOfClosedChannel)
              else ((did CloseUnitDying f1)\<lparr>outUnitDyingClosed := True, outUpgrade := False\<rparr>,
                    None))
         | Dead \<Rightarrow> (f1, Some ErrTerminateAgent)
         | Alive \<Rightarrow> (f1, None))
      else (f, None))"

definition unitChanged_resolved :: "unit_doc \<Rightarrow> filter \<Rightarrow> filter" where
  "unitChanged_resolved doc f =
     (if unitResolved doc \<noteq> resolved f then
        (let f1 = f\<lparr>resolved := unitResolved doc\<rparr> in
         if resolved f1 \<noteq> ResolvedNone then f1\<lparr>outResolved := True\<rparr> else f1)
      else f)"

definition unitChanged :: "backend \<Rightarrow> filter \<Rightarrow> filter \<times> error option" where
  "unitChanged b f =
     (let f1 = did CallUnitRefresh f in
      case unitRefresh b of
        Inl err \<Rightarrow> (f1, Some (if IsNotFoundError err then ErrTerminateAgent else err))
      | Inr doc \<Rightarrow>
          (case unitChanged_life doc (f1\<lparr>unit := Some doc\<rparr>) of
             (f2, Some err) \<Rightarrow> (f2, Some err)
           | (f2, None) \<Rightarrow> (unitChanged_resolved doc f2, None)))"

text \<open>\<open>serviceChanged\<close>. A Go \<open>switch\<close> does not fall through: after a successful
  \<open>Destroy\<close> in the \<open>Dying\<close> case control reaches \<open>return f.upgradeChanged()\<close>.\<close>

definition serviceChanged :: "backend \<Rightarrow> filter \<Rightarrow> filter \<times> error option" where
  "serviceChanged b f =
     (let f1 = did CallServiceRefresh f in
      case serviceRefresh b of
        Inl err \<Rightarrow>
          (f1, Some (if IsNotFoundError err then Errorf ''service unexpectedly removed''
                     else err))
      | Inr doc \<Rightarrow>
          (let f2 = f1\<lparr>service := Some doc,
                       upgradeAvailable :=
                         \<lparr>url = Some (serviceCharmURL doc), force = serviceForce doc\<rparr>\<rparr> in
           case serviceLife doc of
             Dying \<Rightarrow>
               (let f3 = did CallUnitDestroy f2 in
                case unitDestroy b of
                  Some err \<Rightarrow> (f3, Some err)
                | None \<Rightarrow> upgradeChanged f3)
           | Dead \<Rightarrow> (f2, Some (Errorf ''service unexpectedly dead''))
           | Alive \<Rightarrow> upgradeChanged f2))"

text \<open>\<open>relationsChanged\<close>: the labelled loop appends each id that is not yet in
  \<open>f.relations\<close> (which grows while the loop runs); \<open>sort.Ints\<close> sorts ascending.\<close>

fun relationsChanged_append :: "int list \<Rightarrow> int list \<Rightarrow> int list" where
  "relationsChanged_append rels [] = rels"
| "relationsChanged_append rels (i # ids) =
     relationsChanged_append (if i \<in> set rels then rels else rels @ [i]) ids"

definition relationsChanged :: "int list \<Rightarrow> filter \<Rightarrow> filter" where
  "relationsChanged ids f =
     (let f1 = f\<lparr>relations := relationsChanged_append (relations f) ids\<rparr> in
      if length (relations f1) \<noteq> 0
      then f1\<lparr>relations := sort (relations f1), outRelations := True\<rparr>
      else f1)"

subsection \<open>The loop\<close>

text \<open>Modelled from the spec: \<open>Unit.SetCharmURL\<close> and \<open>Unit.WatchConfigSettings\<close> are
  not part of the sources at hand. Setting the charm URL persists it on the unit, so the
  handle's document carries it afterwards; a config watcher is bound to the charm URL
  of the unit and cannot be had while the unit has none.\<close>

definition setCharmURL_doc :: "charm_url \<Rightarrow> unit_doc option \<Rightarrow> unit_doc option" where
  "setCharmURL_doc curl d = map_option (\<lambda>doc. doc\<lparr>unitCharmURL := Some curl\<rparr>) d"

definition WatchConfigSettings :: "backend \<Rightarrow> filter \<Rightarrow> error + config_watcher" where
  "WatchConfigSettings b f =
     (case unitWatchConfigSettings b of
        Some err \<Rightarrow> Inl err
      | None \<Rightarrow>
          (case unit f of
             None \<Rightarrow> Inl PanicNilDereference
           | Some doc \<Rightarrow>
               (case unitCharmURL doc of
                  None \<Rightarrow> Inl (Errorf ''unit charm not set'')
                | Some curl \<Rightarrow> Inr (ConfigWatcher curl))))"

text \<open>The part of \<open>loop\<close> before the \<open>for\<close>: the startup phase.\<close>

definition loop_watchers :: "backend \<Rightarrow> filter \<Rightarrow> outcome" where
  "loop_watchers b f =
     (let f1 = did CallServiceWatch (did CallUnitWatch f) in
      case unit f1 of
        None \<Rightarrow> Return PanicNilDereference f1
      | Some doc \<Rightarrow>
          (case unitCharmURL doc of
             Some curl \<Rightarrow>
               (let f2 = did CallWatchConfigSettings f1 in
                case WatchConfigSettings b f2 of
                  Inl err \<Rightarrow> Return err f2
                | Inr w \<Rightarrow>
                    Continue
                      \<lparr>flt = did CallWatchRelations
                               (f2\<lparr>upgradeFrom := (upgradeFrom f2)\<lparr>url := Some curl\<rparr>\<rparr>),
                       configw = Some w, configChanges = True, discardConfig = False\<rparr>)
           | None \<Rightarrow>
               Continue
                 \<lparr>flt = did CallWatchRelations f1,
                  configw = None, configChanges = False, discardConfig = False\<rparr>))"

definition loop_init :: "backend \<Rightarrow> filter \<Rightarrow> outcome" where
  "loop_init b f =
     (let f1 = did CallStUnit f in
      case stUnit b of
        Inl err \<Rightarrow> Return err f1
      | Inr udoc \<Rightarrow>
          (case unitChanged b (f1\<lparr>unit := Some udoc\<rparr>) of
             (f2, Some err) \<Rightarrow> Return err f2
           | (f2, None) \<Rightarrow>
               (let f3 = did CallUnitService f2 in
                case unitService b of
                  Inl err \<Rightarrow> Return err f3
                | Inr sdoc \<Rightarrow>
                    (case serviceChanged b (f3\<lparr>service := Some sdoc\<rparr>) of
                       (f4, Some err) \<Rightarrow> Return err f4
                     | (f4, None) \<Rightarrow> loop_watchers b f4))))"

text \<open>The \<open>setCharm\<close> case of the \<open>select\<close>.\<close>

definition setCharm_restart :: "backend \<Rightarrow> charm_url \<Rightarrow> loop_state \<Rightarrow> filter \<Rightarrow> outcome" where
  "setCharm_restart b curl s f =
     (let f1 = did CallWatchConfigSettings f in
      case WatchConfigSettings b f1 of
        Inl err \<Rightarrow> Return err f1
      | Inr w \<Rightarrow>
          (let f2 = did CallRelationswStop f1 in
           case relationswStop b of
             Some err \<Rightarrow> Return err f2
           | None \<Rightarrow>
               (let f3 = did CallWatchRelations f2;
                    f4 = f3\<lparr>upgradeFrom := (upgradeFrom f3)\<lparr>url := Some curl\<rparr>\<rparr> in
                case upgradeChanged f4 of
                  (f5, Some err) \<Rightarrow> Return err f5
                | (f5, None) \<Rightarrow>
                    Continue (s\<lparr>flt := f5, configw := Some w, configChanges := True\<rparr>))))"

definition setCharm_set :: "backend \<Rightarrow> charm_url \<Rightarrow> loop_state \<Rightarrow> filter \<Rightarrow> outcome" where
  "setCharm_set b curl s f =
     (let f1 = did (CallSetCharmURL curl) f in
      case unitSetCharmURL b of
        Some err \<Rightarrow> Return err f1
      | None \<Rightarrow>
          (let f2 = f1\<lparr>unit := setCharmURL_doc curl (unit f1)\<rparr> in
           if tombDying b then Return ErrDying f2
           else setCharm_restart b curl s (did SendDidSetCharm f2)))"

definition setCharm_case :: "backend \<Rightarrow> charm_url \<Rightarrow> loop_state \<Rightarrow> outcome" where
  "setCharm_case b curl s =
     (case configw s of
        None \<Rightarrow> setCharm_set b curl s (flt s)
      | Some w \<Rightarrow>
          (let f1 = did CallConfigwStop (flt s) in
           case configwStop b of
             Some err \<Rightarrow> Return err f1
           | None \<Rightarrow> setCharm_set b curl s f1))"

text \<open>The \<open>clearResolved\<close> case of the \<open>select\<close>.\<close>

definition clearResolved_case :: "backend \<Rightarrow> loop_state \<Rightarrow> outcome" where
  "clearResolved_case b s =
     (let f1 = did CallUnitClearResolved ((flt s)\<lparr>outResolved := False\<rparr>) in
      case unitClearResolved b of
        Some err \<Rightarrow> Return err f1
      | None \<Rightarrow>
          (case unitChanged b f1 of
             (f2, Some err) \<Rightarrow> Return err f2
           | (f2, None) \<Rightarrow>
               if tombDying b then Return ErrDying f2
               else Continue (s\<lparr>flt := did SendDidClearResolved f2\<rparr>)))"

text \<open>One iteration of the \<open>for { select { ... } }\<close>.\<close>

fun step :: "backend \<Rightarrow> loop_state \<Rightarrow> event \<Rightarrow> outcome" where
  "step b s EvDying = Return ErrDying (flt s)"
| "step b s (EvUnitChanges ok) =
     (if \<not> ok then Return (mustErr b) (flt s)
      else case unitChanged b (flt s) of
        (f1, Some err) \<Rightarrow> Return err f1
      | (f1, None) \<Rightarrow> Continue (s\<lparr>flt := f1\<rparr>))"
| "step b s (EvServiceChanges ok) =
     (if \<not> ok then Return (mustErr b) (flt s)
      else case serviceChanged b (flt s) of
        (f1, Some err) \<Rightarrow> Return err f1
      | (f1, None) \<Rightarrow> Continue (s\<lparr>flt := f1\<rparr>))"
| "step b s (EvConfigChanges ok) =
     (if \<not> configChanges s then Blocked
      else if \<not> ok then Return (mustErr b) (flt s)
      else Continue (s\<lparr>flt := (flt s)\<lparr>outConfig := True\<rparr>, discardConfig := True\<rparr>))"
| "step b s (EvRelationsChanges ids ok) =
     (if \<not> ok then Return (mustErr b) (flt s)
      else Continue (s\<lparr>flt := relationsChanged ids (flt s)\<rparr>))"
| "step b s EvSendUpgrade =
     (if \<not> outUpgrade (flt s) then Blocked
      else Continue (s\<lparr>flt := (did (SendUpgrade (upgrade (flt s))) (flt s))
                               \<lparr>outUpgrade := False\<rparr>\<rparr>))"
| "step b s EvSendResolved =
     (if \<not> outResolved (flt s) then Blocked
      else Continue (s\<lparr>flt := (did (SendResolved (resolved (flt s))) (flt s))
                               \<lparr>outResolved := False\<rparr>\<rparr>))"
| "step b s EvSendConfig =
     (if \<not> outConfig (flt s) then Blocked
      else Continue (s\<lparr>flt := (did SendConfig (flt s))\<lparr>outConfig := False\<rparr>\<rparr>))"
| "step b s EvSendRelations =
     (if \<not> outRelations (flt s) then Blocked
      else Continue (s\<lparr>flt := (did (SendRelations (relations (flt s))) (flt s))
                               \<lparr>outRelations := False, relations := []\<rparr>\<rparr>))"
| "step b s (EvSetCharm curl) = setCharm_case b curl s"
| "step b s (EvWantForcedUpgrade frc) =
     (case upgradeChanged ((flt s)\<lparr>upgradeFrom := (upgradeFrom (flt s))\<lparr>force := frc\<rparr>\<rparr>) of
        (f1, Some err) \<Rightarrow> Return err f1
      | (f1, None) \<Rightarrow> Continue (s\<lparr>flt := f1\<rparr>))"
| "step b s EvWantResolved =
     (if resolved (flt s) \<noteq> ResolvedNone
      then Continue (s\<lparr>flt := (flt s)\<lparr>outResolved := True\<rparr>\<rparr>)
      else Continue s)"
| "step b s EvClearResolved = clearResolved_case b s"
| "step b s EvDiscardConfig =
     (if \<not> discardConfig s then Blocked
      else Continue (s\<lparr>flt := (flt s)\<lparr>outConfig := False\<rparr>\<rparr>))"

text \<open>The loop over a schedule: the list gives, for each iteration, the backend's
  answers and the case the scheduler picks. The run stops where \<open>loop\<close> returns and
  where the picked case cannot proceed.\<close>

fun run :: "loop_state \<Rightarrow> (backend \<times> event) list \<Rightarrow> outcome" where
  "run s [] = Continue s"
| "run s ((b, e) # bes) =
     (case step b s e of
        Continue s1 \<Rightarrow> run s1 bes
      | Return err f \<Rightarrow> Return err f
      | Blocked \<Rightarrow> Blocked)"

text \<open>The whole of \<open>loop\<close>: the startup phase with its own backend answers, then the
  schedule.\<close>

definition loop :: "backend \<Rightarrow> (backend \<times> event) list \<Rightarrow> outcome" where
  "loop b0 bes =
     (case loop_init b0 newFilter of
        Continue s \<Rightarrow> run s bes
      | Return err f \<Rightarrow> Return err f
      | Blocked \<Rightarrow> Blocked)"

subsection \<open>Reading an outcome\<close>

fun continued :: "outcome \<Rightarrow> loop_state option" where
  "continued (Continue s) = Some s"
| "continued _ = None"

fun returned :: "outcome \<Rightarrow> error option" where
  "returned (Return err f) = Some err"
| "returned _ = None"

fun final_filter :: "outcome \<Rightarrow> filter option" where
  "final_filter Blocked = None"
| "final_filter (Continue s) = Some (flt s)"
| "final_filter (Return err f) = Some f"

fun log_of :: "outcome \<Rightarrow> action list" where
  "log_of Blocked = []"
| "log_of (Continue s) = calls (flt s)"
| "log_of (Return err f) = calls f"

section \<open>The specification's side\<close>

text \<open>The upgrade decision as the specification words it: five rules, in order.\<close>

definition upgrade_rules :: "filter \<Rightarrow> filter" where
  "upgrade_rules f =
     (if life f \<noteq> Alive then f\<lparr>outUpgrade := False\<rparr>
      else if url (upgradeFrom f) = None then f\<lparr>outUpgrade := False\<rparr>
      else if url (upgradeAvailable f) = url (upgradeFrom f) then f\<lparr>outUpgrade := False\<rparr>
      else if force (upgradeAvailable f) \<or> \<not> force (upgradeFrom f)
        then f\<lparr>upgrade := url (upgradeAvailable f), outUpgrade := True\<rparr>
      else f\<lparr>outUpgrade := False\<rparr>)"

section \<open>Sample data\<close>

definition unit_doc_at :: "life \<Rightarrow> resolved_mode \<Rightarrow> charm_url option \<Rightarrow> unit_doc" where
  "unit_doc_at l r c = \<lparr>unitLife = l, unitResolved = r, unitCharmURL = c\<rparr>"

definition service_doc_at :: "life \<Rightarrow> charm_url \<Rightarrow> bool \<Rightarrow> service_doc" where
  "service_doc_at l c frc = \<lparr>serviceLife = l, serviceCharmURL = c, serviceForce = frc\<rparr>"

text \<open>A backend in which every call succeeds, the unit reads as \<open>u\<close> and the service as
  \<open>sv\<close>.\<close>

definition backend_answering :: "unit_doc \<Rightarrow> service_doc \<Rightarrow> backend" where
  "backend_answering u sv =
     \<lparr>stUnit = Inr u, unitRefresh = Inr u, unitService = Inr sv, serviceRefresh = Inr sv,
      unitDestroy = None, unitSetCharmURL = None, unitWatchConfigSettings = None,
      unitClearResolved = None, configwStop = None, relationswStop = None,
      mustErr = BackendError ''watcher stopped'', tombDying = False\<rparr>"

text \<open>The unit runs \<open>cs:foo-1\<close>, the service announces \<open>cs:foo-2\<close>, unforced.\<close>

definition backend_foo :: backend where
  "backend_foo = backend_answering (unit_doc_at Alive ResolvedNone (Some ''cs:foo-1''))
                   (service_doc_at Alive ''cs:foo-2'' False)"

text \<open>The loop's state at the end of the startup phase against \<open>backend_foo\<close>.\<close>

definition started :: loop_state where
  "started =
     \<lparr>flt = newFilter
        \<lparr>unit := Some (unit_doc_at Alive ResolvedNone (Some ''cs:foo-1'')),
         service := Some (service_doc_at Alive ''cs:foo-2'' False),
         upgradeFrom := \<lparr>url = Some ''cs:foo-1'', force = False\<rparr>,
         upgradeAvailable := \<lparr>url = Some ''cs:foo-2'', force = False\<rparr>,
         calls := [CallStUnit, CallUnitRefresh, CallUnitService, CallServiceRefresh,
                   CallUnitWatch, CallServiceWatch, CallWatchConfigSettings,
                   CallWatchRelations]\<rparr>,
      configw = Some (ConfigWatcher ''cs:foo-1''), configChanges = True,
      discardConfig = False\<rparr>"

section \<open>Invariants, the specification's words, and more sample data\<close>

text \<open>The pending relation ids, and every list already sent on \<open>outRelations\<close>, are
  strictly ascending.\<close>

definition relations_inv :: "filter \<Rightarrow> bool" where
  "relations_inv f =
     (sorted_wrt (<) (relations f) \<and>
      list_all (\<lambda>a. case a of SendRelations ids \<Rightarrow> sorted_wrt (<) ids | _ \<Rightarrow> True) (calls f))"

text \<open>As \<open>backend_foo\<close>, but the unit reads as resolved with \<open>ResolvedRetryHooks\<close>.\<close>

definition backend_retry :: backend where
  "backend_retry = backend_answering (unit_doc_at Alive ResolvedRetryHooks (Some ''cs:foo-1''))
                     (service_doc_at Alive ''cs:foo-2'' False)"

definition relations_schedule :: "(backend \<times> event) list" where
  "relations_schedule =
     [(backend_foo, EvRelationsChanges [3, 1] True),
      (backend_foo, EvRelationsChanges [2, 1] True)]"

text \<open>The specification's words for the config event: a config watcher notification has
  been observed since the last delivery or discard. The list is the sequence of
  \<open>select\<close> cases taken so far, oldest first; \<open>p\<close> is the value before them.\<close>

fun config_pending :: "bool \<Rightarrow> event list \<Rightarrow> bool" where
  "config_pending p [] = p"
| "config_pending p (EvConfigChanges ok # es) = config_pending (if ok then True else p) es"
| "config_pending p (EvSendConfig # es) = config_pending False es"
| "config_pending p (EvDiscardConfig # es) = config_pending False es"
| "config_pending p (_ # es) = config_pending p es"

text \<open>Whether the loop goes on with the config event armed.\<close>

fun config_armed :: "outcome \<Rightarrow> bool" where
  "config_armed (Continue s) = outConfig (flt s)"
| "config_armed _ = False"

definition config_schedule :: "(backend \<times> event) list" where
  "config_schedule =
     [(backend_foo, EvConfigChanges True), (backend_foo, EvSetCharm ''cs:foo-2'')]"

text \<open>The charm URL the unit has adopted, as its cached document has it.\<close>

definition adopted_charm :: "filter \<Rightarrow> charm_url option" where
  "adopted_charm f = (case unit f of None \<Rightarrow> None | Some doc \<Rightarrow> unitCharmURL doc)"

text \<open>The cases of the \<open>select\<close> that end in \<open>upgradeChanged\<close>.\<close>

fun decides_upgrade :: "event \<Rightarrow> bool" where
  "decides_upgrade (EvServiceChanges ok) = True"
| "decides_upgrade (EvSetCharm u) = True"
| "decides_upgrade (EvWantForcedUpgrade frc) = True"
| "decides_upgrade _ = False"

text \<open>The backend reads the unit as Alive (or fails to read it).\<close>

definition unit_reads_alive :: "backend \<Rightarrow> bool" where
  "unit_reads_alive b = (case unitRefresh b of Inl err \<Rightarrow> True | Inr doc \<Rightarrow> unitLife doc = Alive)"

text \<open>The unit is Alive and \<open>outUnitDying\<close> is not closed.\<close>

definition alive_inv :: "filter \<Rightarrow> bool" where
  "alive_inv f = (life f = Alive \<and> \<not> outUnitDyingClosed f)"

text \<open>The specification's data model: the unit's life never decreases, so a unit that has
  been read as Dying is never read as Alive again.\<close>

definition unit_never_revives :: "backend \<Rightarrow> bool" where
  "unit_never_revives b = (case unitRefresh b of Inl err \<Rightarrow> True | Inr doc \<Rightarrow> unitLife doc \<noteq> Alive)"

text \<open>The same outcome with the filter's \<open>life\<close> replaced.\<close>

fun set_life :: "life \<Rightarrow> outcome \<Rightarrow> outcome" where
  "set_life l Blocked = Blocked"
| "set_life l (Continue s) = Continue (s\<lparr>flt := (flt s)\<lparr>life := l\<rparr>\<rparr>)"
| "set_life l (Return err f) = Return err (f\<lparr>life := l\<rparr>)"

text \<open>The cases of the \<open>select\<close> that serve config, resolved and relations events without
  reading the backend.\<close>

fun life_blind :: "event \<Rightarrow> bool" where
  "life_blind (EvConfigChanges ok) = True"
| "life_blind (EvRelationsChanges ids ok) = True"
| "life_blind EvSendResolved = True"
| "life_blind EvSendConfig = True"
| "life_blind EvSendRelations = True"
| "life_blind EvWantResolved = True"
| "life_blind EvDiscardConfig = True"
| "life_blind _ = False"

text \<open>The unit is Dying, \<open>outUnitDying\<close> is closed and no upgrade event is armed.\<close>

definition dying_inv :: "filter \<Rightarrow> bool" where
  "dying_inv f = (life f = Dying \<and> outUnitDyingClosed f \<and> \<not> outUpgrade f)"

definition dying_doc :: unit_doc where
  "dying_doc = unit_doc_at Dying ResolvedRetryHooks (Some ''cs:foo-1'')"

definition backend_dying :: backend where
  "backend_dying = backend_answering dying_doc (service_doc_at Alive ''cs:foo-3'' True)"

definition dying_schedule :: "(backend \<times> event) list" where
  "dying_schedule =
     [(backend_dying, EvServiceChanges True), (backend_dying, EvWantForcedUpgrade False),
      (backend_dying, EvConfigChanges True), (backend_dying, EvSendConfig),
      (backend_dying, EvRelationsChanges [4] True), (backend_dying, EvSendRelations),
      (backend_dying, EvUnitChanges True), (backend_dying, EvSendResolved)]"



text \<open>The log \<open>l\<close> is \<open>base\<close> followed by actions that all satisfy \<open>ok\<close>.\<close>

definition extends_log :: "action list \<Rightarrow> (action \<Rightarrow> bool) \<Rightarrow> action list \<Rightarrow> bool" where
  "extends_log base ok l =
     (take (length base) l = base \<and> list_all ok (drop (length base) l))"




text \<open>\<open>serviceCharm{url, force}\<close> as read from the service.\<close>

definition refreshed :: "service_doc \<Rightarrow> serviceCharm" where
  "refreshed doc = \<lparr>url = Some (serviceCharmURL doc), force = serviceForce doc\<rparr>"

text \<open>Whether the loop goes on with the upgrade event armed.\<close>

fun upgrade_armed :: "outcome \<Rightarrow> bool" where
  "upgrade_armed (Continue s) = outUpgrade (flt s)"
| "upgrade_armed _ = False"

definition backend_service_dying :: backend where
  "backend_service_dying =
     backend_answering (unit_doc_at Alive ResolvedNone (Some ''cs:foo-1''))
       (service_doc_at Dying ''cs:foo-3'' True)"

definition backend_service_dead :: backend where
  "backend_service_dead =
     backend_answering (unit_doc_at Alive ResolvedNone (Some ''cs:foo-1''))
       (service_doc_at Dead ''cs:foo-3'' True)"

definition backend_service_gone :: backend where
  "backend_service_gone = backend_foo\<lparr>serviceRefresh := Inl (NotFoundError ''service'')\<rparr>"

definition backend_destroy_fails :: backend where
  "backend_destroy_fails =
     backend_service_dying\<lparr>unitDestroy := Some (BackendError ''cannot destroy'')\<rparr>"








text \<open>The actions of the \<open>setCharm\<close> case after the acknowledgement, and from the
  \<open>SetCharmURL\<close> call on, as the backend's answers cut them short.\<close>

definition restart_calls :: "backend \<Rightarrow> filter \<Rightarrow> action list" where
  "restart_calls b f =
     (case WatchConfigSettings b (did CallWatchConfigSettings f) of
        Inl err \<Rightarrow> [CallWatchConfigSettings]
      | Inr w \<Rightarrow>
          (case relationswStop b of
             Some err \<Rightarrow> [CallWatchConfigSettings, CallRelationswStop]
           | None \<Rightarrow> [CallWatchConfigSettings, CallRelationswStop, CallWatchRelations]))"


section \<open>Properties\<close>

subsection \<open>Running a schedule\<close>

lemma fst_eqD: "x = (a, b) \<Longrightarrow> fst x = a"
  by simp

lemma run_Continue_invariant:
  assumes step: "\<And>s b e s'. P s \<Longrightarrow> Q b e \<Longrightarrow> step b s e = Continue s' \<Longrightarrow> P s'"
  shows "P s \<Longrightarrow> list_all (\<lambda>(b, e). Q b e) bes \<Longrightarrow> run s bes = Continue s' \<Longrightarrow> P s'"
proof (induction bes arbitrary: s)
  case Nil
  then show ?case by simp
next
  case (Cons be bes)
  obtain b e where be: "be = (b, e)" by (cases be)
  from Cons.prems be obtain s1 where s1: "step b s e = Continue s1" "run s1 bes = Continue s'"
    by (auto split: outcome.splits)
  from Cons.prems be have "Q b e" "list_all (\<lambda>(b, e). Q b e) bes" by auto
  with s1 Cons.prems(1) Cons.IH[of s1] step[of s b e s1] show ?case by blast
qed

lemma run_final_invariant:
  assumes step: "\<And>s b e f'. P (flt s) \<Longrightarrow> Q b e \<Longrightarrow> final_filter (step b s e) = Some f' \<Longrightarrow> P f'"
  shows "P (flt s) \<Longrightarrow> list_all (\<lambda>(b, e). Q b e) bes \<Longrightarrow> final_filter (run s bes) = Some f'
           \<Longrightarrow> P f'"
proof (induction bes arbitrary: s)
  case Nil
  then show ?case by simp
next
  case (Cons be bes)
  obtain b e where be: "be = (b, e)" by (cases be)
  from Cons.prems be have q: "Q b e" "list_all (\<lambda>(b, e). Q b e) bes" by auto
  show ?case
  proof (cases "step b s e")
    case Blocked
    with Cons.prems be show ?thesis by simp
  next
    case (Continue s1)
    with Cons.prems be q step[of s b e "flt s1"]
    have "P (flt s1)" "final_filter (run s1 bes) = Some f'" by auto
    with q show ?thesis using Cons.IH by blast
  next
    case (Return err f)
    with Cons.prems be q step[of s b e f] show ?thesis by auto
  qed
qed

lemmas example_defs = unit_doc_at_def service_doc_at_def backend_answering_def backend_foo_def
  started_def newFilter_def

lemma loop_init_started: "loop_init backend_foo newFilter = Continue started"
  by (simp add: example_defs loop_init_def loop_watchers_def unitChanged_def unitChanged_life_def
      unitChanged_resolved_def serviceChanged_def upgradeChanged_def WatchConfigSettings_def did_def)

lemma loop_watchers_frame:
  "loop_watchers b f = Continue s \<Longrightarrow>
     outConfig (flt s) = outConfig f \<and> outUpgrade (flt s) = outUpgrade f
     \<and> relations (flt s) = relations f \<and> \<not> discardConfig s
     \<and> life (flt s) = life f \<and> upgradeAvailable (flt s) = upgradeAvailable f"
  by (auto simp: loop_watchers_def did_def Let_def split: option.splits sum.splits)

subsection \<open>The upgrade decision\<close>

lemma upgradeChanged_rules:
  "upgradeChanged f = (f', None) \<Longrightarrow> f' = upgrade_rules f"
  by (auto simp: upgradeChanged_def upgrade_rules_def split: if_splits option.splits)

lemma upgradeChanged_total:
  "url (upgradeAvailable f) \<noteq> None \<Longrightarrow> upgradeChanged f = (upgrade_rules f, None)"
  by (auto simp: upgradeChanged_def upgrade_rules_def split: if_splits option.splits)

lemma upgrade_rules_idem: "upgrade_rules (upgrade_rules f) = upgrade_rules f"
  by (simp add: upgrade_rules_def)

lemma upgrade_rules_from [simp]: "upgradeFrom (upgrade_rules f) = upgradeFrom f"
  by (simp add: upgrade_rules_def)

lemma serviceChanged_rules:
  "serviceChanged b f = (f', None) \<Longrightarrow> f' = upgrade_rules f'"
  by (auto simp: serviceChanged_def Let_def upgrade_rules_idem
        split: sum.splits life.splits option.splits dest!: upgradeChanged_rules)

lemma step_service_rules:
  "step b s (EvServiceChanges ok) = Continue s' \<Longrightarrow> flt s' = upgrade_rules (flt s')"
  by (auto split: if_splits prod.splits option.splits dest: serviceChanged_rules)

lemma setCharm_restart_rules:
  "setCharm_restart b u s f = Continue s' \<Longrightarrow>
     flt s' = upgrade_rules (flt s') \<and> url (upgradeFrom (flt s')) = Some u"
proof -
  assume st: "setCharm_restart b u s f = Continue s'"
  define g where
    "g = did CallWatchRelations (did CallRelationswStop (did CallWatchConfigSettings f))"
  define h where "h = g\<lparr>upgradeFrom := (upgradeFrom g)\<lparr>url := Some u\<rparr>\<rparr>"
  from st have "upgradeChanged h = (flt s', None)"
    by (auto simp: setCharm_restart_def Let_def g_def h_def
             split: sum.splits prod.splits option.splits)
  then have "flt s' = upgrade_rules h"
    by (rule upgradeChanged_rules)
  then show ?thesis
    by (simp add: upgrade_rules_idem h_def)
qed

lemma step_setCharm_rules:
  "step b s (EvSetCharm u) = Continue s' \<Longrightarrow>
     flt s' = upgrade_rules (flt s') \<and> url (upgradeFrom (flt s')) = Some u"
  by (auto simp: setCharm_case_def setCharm_set_def Let_def
           split: if_splits option.splits dest: setCharm_restart_rules)

text \<open>Once the startup phase has read the service, \<open>upgradeAvailable.url\<close> is never nil,
  so \<open>upgradeChanged\<close> cannot dereference a nil pointer.\<close>

lemma upgradeAvailable_upgradeChanged [simp]:
  "upgradeAvailable (fst (upgradeChanged f)) = upgradeAvailable f"
  by (auto simp: upgradeChanged_def split: option.splits)

lemma upgradeAvailable_unitChanged [simp]:
  "upgradeAvailable (fst (unitChanged b f)) = upgradeAvailable f"
  by (auto simp: unitChanged_def unitChanged_life_def unitChanged_resolved_def did_def Let_def
        split: option.splits sum.splits life.splits prod.splits)

lemma serviceChanged_available:
  "serviceChanged b f = (f', None) \<Longrightarrow> url (upgradeAvailable f') \<noteq> None"
  by (auto simp: serviceChanged_def did_def Let_def
        split: option.splits sum.splits life.splits prod.splits
        dest!: fst_eqD[where x="upgradeChanged _"])

lemma step_available:
  "url (upgradeAvailable (flt s)) \<noteq> None \<Longrightarrow> step b s e = Continue s' \<Longrightarrow>
     url (upgradeAvailable (flt s')) \<noteq> None"
  by (cases e)
    (auto simp: relationsChanged_def Let_def did_def setCharm_case_def setCharm_set_def
          setCharm_restart_def clearResolved_case_def
       split: if_splits prod.splits option.splits sum.splits
       dest!: fst_eqD[where x="upgradeChanged _"] fst_eqD[where x="unitChanged _ _"]
              serviceChanged_available)

lemma run_available:
  assumes "url (upgradeAvailable (flt s)) \<noteq> None" and "run s bes = Continue s'"
  shows "url (upgradeAvailable (flt s')) \<noteq> None"
proof (rule run_Continue_invariant[where P="\<lambda>s. url (upgradeAvailable (flt s)) \<noteq> None"
      and Q="\<lambda>b e. True", OF _ assms(1) _ assms(2)])
  show "list_all (\<lambda>(b, e). True) bes" by (simp add: list_all_iff)
qed (rule step_available)

lemma loop_init_available:
  assumes "loop_init b f = Continue s"
  shows "url (upgradeAvailable (flt s)) \<noteq> None"
proof -
  from assms obtain f3 f4 where
    sv: "serviceChanged b f3 = (f4, None)" and
    w: "loop_watchers b f4 = Continue s"
    by (auto simp: loop_init_def Let_def split: sum.splits prod.splits option.splits)
  from serviceChanged_available[OF sv] loop_watchers_frame[OF w] show ?thesis by simp
qed

lemma loop_available:
  "loop b0 bes = Continue s \<Longrightarrow> url (upgradeAvailable (flt s)) \<noteq> None"
proof -
  assume "loop b0 bes = Continue s"
  then obtain s0 where "loop_init b0 newFilter = Continue s0" "run s0 bes = Continue s"
    by (auto simp: loop_def split: outcome.splits)
  then show ?thesis using loop_init_available run_available by blast
qed

subsection \<open>Relations events\<close>

lemma distinct_relationsChanged_append:
  "distinct rels \<Longrightarrow> distinct (relationsChanged_append rels ids)"
  by (induction rels ids rule: relationsChanged_append.induct) auto

lemma prefix_relationsChanged_append:
  "\<exists>new. relationsChanged_append rels ids = rels @ new \<and> distinct new
          \<and> set new = set ids - set rels"
proof (induction rels ids rule: relationsChanged_append.induct)
  case (1 rels)
  then show ?case by simp
next
  case (2 rels i ids)
  then obtain new where n:
      "relationsChanged_append (if i \<in> set rels then rels else rels @ [i]) ids
         = (if i \<in> set rels then rels else rels @ [i]) @ new"
      "distinct new"
      "set new = set ids - set (if i \<in> set rels then rels else rels @ [i])"
    by blast
  show ?case
  proof (cases "i \<in> set rels")
    case True
    with n show ?thesis by (intro exI[of _ new]) auto
  next
    case False
    with n show ?thesis by (intro exI[of _ "i # new"]) auto
  qed
qed

lemma relationsChanged_sorts:
  "relations (relationsChanged ids f) = sort (relationsChanged_append (relations f) ids)"
  by (simp add: relationsChanged_def Let_def)

lemma relationsChanged_arms:
  "outRelations (relationsChanged ids f)
     = (outRelations f \<or> relationsChanged_append (relations f) ids \<noteq> [])"
  by (simp add: relationsChanged_def Let_def)

lemma relationsChanged_relations:
  "sorted_wrt (<) (relations f) \<Longrightarrow> sorted_wrt (<) (relations (relationsChanged ids f))"
  by (auto simp: relationsChanged_def Let_def strict_sorted_iff distinct_relationsChanged_append)

lemma relationsChanged_calls [simp]: "calls (relationsChanged ids f) = calls f"
  by (simp add: relationsChanged_def Let_def)

lemma relationsChanged_inv: "relations_inv f \<Longrightarrow> relations_inv (relationsChanged ids f)"
  by (simp add: relations_inv_def relationsChanged_relations)

lemma upgradeChanged_relations_inv:
  "relations_inv f \<Longrightarrow> relations_inv (fst (upgradeChanged f))"
  by (auto simp: upgradeChanged_def relations_inv_def split: option.splits)

lemma unitChanged_relations_inv:
  "relations_inv f \<Longrightarrow> relations_inv (fst (unitChanged b f))"
  by (auto simp: unitChanged_def unitChanged_life_def unitChanged_resolved_def did_def Let_def
        relations_inv_def
        split: option.splits sum.splits life.splits prod.splits)

lemma serviceChanged_relations_inv:
  "relations_inv f \<Longrightarrow> relations_inv (fst (serviceChanged b f))"
  by (auto simp: serviceChanged_def upgradeChanged_def did_def Let_def relations_inv_def
        split: option.splits sum.splits life.splits prod.splits)

lemma setCharm_relations_inv:
  "relations_inv (flt s) \<Longrightarrow> final_filter (setCharm_case b u s) = Some f' \<Longrightarrow> relations_inv f'"
  by (auto simp: setCharm_case_def setCharm_set_def setCharm_restart_def WatchConfigSettings_def
       upgradeChanged_def did_def Let_def relations_inv_def
        split: option.splits sum.splits life.splits prod.splits if_splits)

lemma clearResolved_relations_inv:
  "relations_inv (flt s) \<Longrightarrow> final_filter (clearResolved_case b s) = Some f' \<Longrightarrow> relations_inv f'"
  using unitChanged_relations_inv[of "did CallUnitClearResolved ((flt s)\<lparr>outResolved := False\<rparr>)" b]
  by (auto simp: clearResolved_case_def did_def Let_def relations_inv_def
        split: option.splits sum.splits life.splits prod.splits if_splits)

lemma step_relations_inv:
  assumes "relations_inv (flt s)" and "final_filter (step b s e) = Some f'"
  shows "relations_inv f'"
proof (cases e)
  case (EvUnitChanges ok)
  with assms unitChanged_relations_inv[of "flt s" b] show ?thesis
    by (auto split: if_splits prod.splits option.splits)
next
  case (EvServiceChanges ok)
  with assms serviceChanged_relations_inv[of "flt s" b] show ?thesis
    by (auto split: if_splits prod.splits option.splits)
next
  case (EvRelationsChanges ids ok)
  with assms show ?thesis
    by (auto simp: relationsChanged_inv split: if_splits)
next
  case (EvSetCharm u)
  with assms show ?thesis
    by (auto dest: setCharm_relations_inv)
next
  case (EvWantForcedUpgrade frc)
  with assms
    upgradeChanged_relations_inv[of "(flt s)\<lparr>upgradeFrom := (upgradeFrom (flt s))\<lparr>force := frc\<rparr>\<rparr>"]
  show ?thesis
    by (auto simp: relations_inv_def split: if_splits prod.splits option.splits)
next
  case EvClearResolved
  with assms show ?thesis
    by (auto dest: clearResolved_relations_inv)
qed (use assms in \<open>auto simp: relations_inv_def did_def split: if_splits\<close>)

lemma run_relations_inv:
  assumes "relations_inv (flt s)" and "final_filter (run s bes) = Some f'"
  shows "relations_inv f'"
proof (rule run_final_invariant[where P=relations_inv and Q="\<lambda>b e. True",
      OF _ assms(1) _ assms(2)])
  show "list_all (\<lambda>(b, e). True) bes" by (simp add: list_all_iff)
qed (rule step_relations_inv)

lemma loop_watchers_relations_inv:
  "relations_inv f \<Longrightarrow> final_filter (loop_watchers b f) = Some f' \<Longrightarrow> relations_inv f'"
  by (auto simp: loop_watchers_def did_def Let_def relations_inv_def
        split: option.splits sum.splits)

lemma loop_init_relations_inv:
  assumes "final_filter (loop_init b newFilter) = Some f'"
  shows "relations_inv f'"
proof -
  have 1: "relations_inv (fst (unitChanged b ((did CallStUnit newFilter)\<lparr>unit := Some udoc\<rparr>)))"
    for udoc
    by (rule unitChanged_relations_inv) (simp add: relations_inv_def newFilter_def did_def)
  have 2: "relations_inv (fst (serviceChanged b ((did CallUnitService f2)\<lparr>service := Some sdoc\<rparr>)))"
    if "relations_inv f2" for f2 sdoc
    by (rule serviceChanged_relations_inv) (use that in \<open>simp add: relations_inv_def did_def\<close>)
  show ?thesis
  proof (cases "stUnit b")
    case (Inl err)
    with assms show ?thesis by (auto simp: loop_init_def relations_inv_def newFilter_def did_def)
  next
    case (Inr udoc)
    obtain f2 r2 where
      u: "unitChanged b ((did CallStUnit newFilter)\<lparr>unit := Some udoc\<rparr>) = (f2, r2)"
      by (cases "unitChanged b ((did CallStUnit newFilter)\<lparr>unit := Some udoc\<rparr>)")
    with 1[of udoc] have i2: "relations_inv f2" by simp
    show ?thesis
    proof (cases r2)
      case (Some err)
      with assms Inr u i2 show ?thesis by (simp add: loop_init_def)
    next
      case None
      note r2 = None
      show ?thesis
      proof (cases "unitService b")
        case (Inl err)
        with assms Inr u r2 i2 show ?thesis
          by (auto simp: loop_init_def relations_inv_def did_def)
      next
        case (Inr sdoc)
        obtain f4 r4 where
          sv: "serviceChanged b ((did CallUnitService f2)\<lparr>service := Some sdoc\<rparr>) = (f4, r4)"
          by (cases "serviceChanged b ((did CallUnitService f2)\<lparr>service := Some sdoc\<rparr>)")
        with 2[OF i2, of sdoc] have i4: "relations_inv f4" by simp
        from assms \<open>stUnit b = Inr udoc\<close> u r2 Inr sv i4 show ?thesis
          by (cases r4) (auto simp: loop_init_def dest: loop_watchers_relations_inv)
      qed
    qed
  qed
qed

lemma loop_relations_inv:
  assumes "final_filter (loop b0 bes) = Some f"
  shows "relations_inv f"
proof (cases "loop_init b0 newFilter")
  case Blocked
  with assms show ?thesis by (simp add: loop_def)
next
  case (Continue s)
  then have "relations_inv (flt s)" by (intro loop_init_relations_inv[of b0]) simp
  moreover from assms Continue have "final_filter (run s bes) = Some f" by (simp add: loop_def)
  ultimately show ?thesis by (rule run_relations_inv)
next
  case (Return err f0)
  with assms have "f = f0" by (simp add: loop_def)
  with Return show ?thesis by (intro loop_init_relations_inv[of b0]) simp
qed

lemma log_of_final: "a \<in> set (log_of out) \<Longrightarrow> \<exists>f. final_filter out = Some f \<and> a \<in> set (calls f)"
  by (cases out) auto

lemma loop_relations_sent:
  assumes "SendRelations ids \<in> set (log_of (loop b0 bes))"
  shows "sorted_wrt (<) ids \<and> distinct ids"
proof -
  from log_of_final[OF assms] obtain f where
    f: "final_filter (loop b0 bes) = Some f" "SendRelations ids \<in> set (calls f)" by blast
  from loop_relations_inv[OF f(1)] f(2) have "sorted_wrt (<) ids"
    by (auto simp: relations_inv_def list_all_iff)
  then show ?thesis by (simp add: strict_sorted_iff)
qed

lemma step_send_relations:
  "step b s EvSendRelations = Continue s' \<Longrightarrow>
     relations (flt s') = [] \<and> \<not> outRelations (flt s')
     \<and> calls (flt s') = calls (flt s) @ [SendRelations (relations (flt s))]"
  by (auto simp: did_def split: if_splits)

text \<open>
  Claim C7. Every list sent on the relations channel, in any run of the loop from its
  start, is strictly ascending and so free of duplicates. \<open>relationsChanged\<close> appends
  to the pending list exactly the incoming ids that are not yet in it, each once; it
  leaves the list sorted ascending and arms the event when the list is not empty; a
  delivery sends the pending list, clears it and disarms the event.
\<close>

theorem relations_events_strictly_ascending:
  "(SendRelations ids \<in> set (log_of (loop b0 bes)) \<longrightarrow> sorted_wrt (<) ids \<and> distinct ids)
   \<and> (\<exists>new. relationsChanged_append rels ids' = rels @ new \<and> distinct new
             \<and> set new = set ids' - set rels)
   \<and> relations (relationsChanged ids' f) = sort (relationsChanged_append (relations f) ids')
   \<and> outRelations (relationsChanged ids' f)
        = (outRelations f \<or> relationsChanged_append (relations f) ids' \<noteq> [])
   \<and> (step b s EvSendRelations = Continue s' \<longrightarrow>
        relations (flt s') = [] \<and> \<not> outRelations (flt s')
        \<and> calls (flt s') = calls (flt s) @ [SendRelations (relations (flt s))])"
  using loop_relations_sent[of ids b0 bes] prefix_relationsChanged_append[of rels ids']
    relationsChanged_sorts[of ids' f] relationsChanged_arms[of ids' f]
    step_send_relations[of b s s']
  by blast

theorem relations_events_strictly_ascending_witness:
  "SendRelations [1, 2, 3]
     \<in> set (log_of (loop backend_foo (relations_schedule @ [(backend_foo, EvSendRelations)])))
   \<and> sorted_wrt (<) [1, 2, 3 :: int] \<and> distinct [1, 2, 3 :: int]
   \<and> relationsChanged_append [1, 3] [2, 1] = [1, 3, 2]
   \<and> (\<exists>s s'. loop backend_foo relations_schedule = Continue s
         \<and> step backend_foo s EvSendRelations = Continue s'
         \<and> relations (flt s) = [1, 2, 3] \<and> relations (flt s') = []
         \<and> \<not> outRelations (flt s'))"
proof -
  define s where "s = the (continued (loop backend_foo relations_schedule))"
  define s' where "s' = the (continued (step backend_foo s EvSendRelations))"
  have m: "SendRelations [1, 2, 3]
     \<in> set (log_of (loop backend_foo (relations_schedule @ [(backend_foo, EvSendRelations)])))"
    by code_simp
  have l: "loop backend_foo relations_schedule = Continue s" unfolding s_def by code_simp
  have e: "step backend_foo s EvSendRelations = Continue s'" unfolding s'_def s_def by code_simp
  have v: "relations (flt s) = [1, 2, 3]" "relationsChanged_append [1, 3] [2, 1] = [1, 3, 2]"
    unfolding s_def by code_simp+
  from relations_events_strictly_ascending[of "[1, 2, 3]" backend_foo
      "relations_schedule @ [(backend_foo, EvSendRelations)]" "[1, 3]" "[2, 1]"
      "flt s" backend_foo s s'] m l e v
  show ?thesis by blast
qed

subsection \<open>Resolved events\<close>

text \<open>
  Claim C3 says that no delivery on the resolved channel carries \<open>ResolvedNone\<close>. The
  code arms the event only for a mode other than \<open>ResolvedNone\<close>, but \<open>unitChanged\<close>
  does not disarm it when the mode it reads has gone back to \<open>ResolvedNone\<close>: the unit
  is resolved with \<open>ResolvedRetryHooks\<close> at startup, a unit notification then reads
  \<open>ResolvedNone\<close> before the consumer has read the event, and the consumer's read
  yields \<open>ResolvedNone\<close>.
\<close>

theorem resolved_event_carries_none:
  "log_of (loop backend_retry [(backend_foo, EvUnitChanges True), (backend_foo, EvSendResolved)])
     = [CallStUnit, CallUnitRefresh, CallUnitService, CallServiceRefresh, CallUnitWatch,
        CallServiceWatch, CallWatchConfigSettings, CallWatchRelations, CallUnitRefresh,
        SendResolved ResolvedNone]"
  by code_simp

subsection \<open>Config events\<close>

lemma upgradeChanged_outConfig [simp]: "outConfig (fst (upgradeChanged f)) = outConfig f"
  by (auto simp: upgradeChanged_def split: option.splits)

lemma unitChanged_outConfig [simp]: "outConfig (fst (unitChanged b f)) = outConfig f"
  by (auto simp: unitChanged_def unitChanged_life_def unitChanged_resolved_def did_def Let_def
        split: option.splits sum.splits life.splits prod.splits)

lemma serviceChanged_outConfig [simp]: "outConfig (fst (serviceChanged b f)) = outConfig f"
  by (auto simp: serviceChanged_def did_def Let_def
        split: option.splits sum.splits life.splits prod.splits)

lemma setCharm_outConfig:
  "setCharm_case b u s = Continue s' \<Longrightarrow> outConfig (flt s') = outConfig (flt s)"
  by (auto simp: setCharm_case_def setCharm_set_def setCharm_restart_def did_def Let_def
        split: option.splits sum.splits prod.splits if_splits
        dest!: fst_eqD[where x="upgradeChanged _"])

lemma clearResolved_outConfig:
  "clearResolved_case b s = Continue s' \<Longrightarrow> outConfig (flt s') = outConfig (flt s)"
  by (auto simp: clearResolved_case_def did_def Let_def
        split: option.splits sum.splits prod.splits if_splits
        dest!: fst_eqD[where x="unitChanged _ _"])

lemma step_config_pending:
  "step b s e = Continue s' \<Longrightarrow> outConfig (flt s') = config_pending (outConfig (flt s)) [e]"
  by (cases e)
    (auto simp: relationsChanged_def Let_def did_def setCharm_outConfig clearResolved_outConfig
       split: if_splits prod.splits option.splits
       dest!: fst_eqD[where x="upgradeChanged _"] fst_eqD[where x="unitChanged _ _"]
              fst_eqD[where x="serviceChanged _ _"])

lemma config_pending_append:
  "config_pending p (es @ es') = config_pending (config_pending p es) es'"
  by (induction p es rule: config_pending.induct) auto

lemma run_config_pending:
  "run s bes = Continue s' \<Longrightarrow>
     outConfig (flt s') = config_pending (outConfig (flt s)) (map snd bes)"
proof (induction bes arbitrary: s)
  case Nil
  then show ?case by simp
next
  case (Cons be bes)
  obtain b e where be: "be = (b, e)" by (cases be)
  from Cons.prems be obtain s1 where s1: "step b s e = Continue s1" "run s1 bes = Continue s'"
    by (auto split: outcome.splits)
  have "config_pending (outConfig (flt s)) (map snd (be # bes))
        = config_pending (config_pending (outConfig (flt s)) [e]) (map snd bes)"
    using config_pending_append[of "outConfig (flt s)" "[e]" "map snd bes"] be by simp
  with Cons.IH[OF s1(2)] step_config_pending[OF s1(1)] show ?case by simp
qed

lemma loop_init_split:
  assumes "loop_init b f = Continue s"
  obtains udoc f2 sdoc f4 where
    "unitChanged b ((did CallStUnit f)\<lparr>unit := Some udoc\<rparr>) = (f2, None)"
    "serviceChanged b ((did CallUnitService f2)\<lparr>service := Some sdoc\<rparr>) = (f4, None)"
    "loop_watchers b f4 = Continue s"
  using assms
  by (auto simp: loop_init_def Let_def split: sum.splits prod.splits option.splits)

lemma loop_init_outConfig:
  assumes "loop_init b newFilter = Continue s"
  shows "\<not> outConfig (flt s) \<and> \<not> discardConfig s"
proof -
  from assms obtain udoc f2 sdoc f4 where
    u: "unitChanged b ((did CallStUnit newFilter)\<lparr>unit := Some udoc\<rparr>) = (f2, None)" and
    sv: "serviceChanged b ((did CallUnitService f2)\<lparr>service := Some sdoc\<rparr>) = (f4, None)" and
    w: "loop_watchers b f4 = Continue s"
    by (rule loop_init_split)
  from u have "outConfig f2 = False"
    using unitChanged_outConfig[of b "(did CallStUnit newFilter)\<lparr>unit := Some udoc\<rparr>"]
    by (simp add: did_def newFilter_def)
  with sv have "outConfig f4 = False"
    using serviceChanged_outConfig[of b "(did CallUnitService f2)\<lparr>service := Some sdoc\<rparr>"]
    by (simp add: did_def)
  with loop_watchers_frame[OF w] show ?thesis by simp
qed

lemma loop_config_pending:
  assumes "loop b0 bes = Continue s"
  shows "outConfig (flt s) = config_pending False (map snd bes)"
proof -
  from assms obtain s0 where s0: "loop_init b0 newFilter = Continue s0" "run s0 bes = Continue s"
    by (auto simp: loop_def split: outcome.splits)
  from loop_init_outConfig[OF s0(1)] run_config_pending[OF s0(2)] show ?thesis by simp
qed

text \<open>
  Claim C4, as amended. In every state the loop reaches, the config event is armed
  exactly when a config watcher notification has been observed since the last delivery
  or discard; only a delivery and a discard disarm it. SetCharm does not touch it: a
  config event that is armed when SetCharm is handled is still armed when SetCharm has
  completed.
\<close>

theorem config_event_armed_since_last_delivery:
  "(loop b0 bes = Continue s \<longrightarrow> outConfig (flt s) = config_pending False (map snd bes))
   \<and> (run s1 bes' = Continue s2 \<longrightarrow>
        outConfig (flt s2) = config_pending (outConfig (flt s1)) (map snd bes'))
   \<and> (step b s1 (EvSetCharm u) = Continue s3 \<longrightarrow> outConfig (flt s3) = outConfig (flt s1))"
  using loop_config_pending[of b0 bes s] run_config_pending[of s1 bes' s2]
    setCharm_outConfig[of b u s1 s3]
  by simp

theorem config_event_armed_since_last_delivery_witness:
  "(\<exists>s. loop backend_foo config_schedule = Continue s \<and> outConfig (flt s)
        \<and> config_pending False (map snd config_schedule))
   \<and> (\<exists>s2. run started [(backend_foo, EvConfigChanges True), (backend_foo, EvSendConfig)]
             = Continue s2 \<and> \<not> outConfig (flt s2))
   \<and> (\<exists>s3. step backend_foo started (EvSetCharm ''cs:foo-2'') = Continue s3
         \<and> \<not> outConfig (flt s3) \<and> \<not> outConfig (flt started))"
proof -
  define s where "s = the (continued (loop backend_foo config_schedule))"
  define s2 where "s2 = the (continued (run started
     [(backend_foo, EvConfigChanges True), (backend_foo, EvSendConfig)]))"
  define s3 where "s3 = the (continued (step backend_foo started (EvSetCharm ''cs:foo-2'')))"
  have l: "loop backend_foo config_schedule = Continue s" unfolding s_def by code_simp
  have r: "run started [(backend_foo, EvConfigChanges True), (backend_foo, EvSendConfig)]
             = Continue s2" unfolding s2_def by code_simp
  have e: "step backend_foo started (EvSetCharm ''cs:foo-2'') = Continue s3"
    unfolding s3_def by code_simp
  have v: "config_pending False (map snd config_schedule)" "\<not> outConfig (flt started)"
    by code_simp+
  from config_event_armed_since_last_delivery[of backend_foo config_schedule s started
      "[(backend_foo, EvConfigChanges True), (backend_foo, EvSendConfig)]" s2 backend_foo
      "''cs:foo-2''" s3] l r e v
  show ?thesis by auto
qed

text \<open>
  Claim C4 as stated fails: a config notification arms the event, SetCharm to
  \<open>cs:foo-2\<close> completes before any delivery, and the event is still armed.
\<close>

theorem setCharm_keeps_config_event:
  "config_armed (loop backend_foo [(backend_foo, EvConfigChanges True)])
   \<and> config_armed (loop backend_foo config_schedule)
   \<and> log_of (loop backend_foo config_schedule)
       = calls (flt started) @ [CallConfigwStop, CallSetCharmURL ''cs:foo-2'', SendDidSetCharm,
           CallWatchConfigSettings, CallRelationswStop, CallWatchRelations]"
  by code_simp

subsection \<open>The startup phase\<close>

lemma unitChanged_upgradeFrom [simp]: "upgradeFrom (fst (unitChanged b f)) = upgradeFrom f"
  by (auto simp: unitChanged_def unitChanged_life_def unitChanged_resolved_def did_def Let_def
        split: option.splits sum.splits life.splits prod.splits)

lemma unitChanged_outUpgrade: "outUpgrade (fst (unitChanged b f)) \<Longrightarrow> outUpgrade f"
  by (auto simp: unitChanged_def unitChanged_life_def unitChanged_resolved_def did_def Let_def
        split: option.splits sum.splits life.splits prod.splits if_splits)

lemma serviceChanged_not_adopted:
  "url (upgradeFrom f) = None \<Longrightarrow> serviceChanged b f = (f', None) \<Longrightarrow> \<not> outUpgrade f'"
  by (auto simp: serviceChanged_def upgradeChanged_def did_def Let_def
        split: option.splits sum.splits life.splits prod.splits if_splits)

lemma loop_watchers_upgradeFrom:
  "loop_watchers b f = Continue s \<Longrightarrow>
     unit (flt s) = unit f \<and>
     url (upgradeFrom (flt s))
       = (case unit f of None \<Rightarrow> None
          | Some doc \<Rightarrow> (case unitCharmURL doc of None \<Rightarrow> url (upgradeFrom f) | Some c \<Rightarrow> Some c))"
  by (auto simp: loop_watchers_def did_def Let_def split: option.splits sum.splits)

lemma loop_init_outUpgrade:
  assumes "loop_init b newFilter = Continue s"
  shows "\<not> outUpgrade (flt s)"
proof -
  from assms obtain udoc f2 sdoc f4 where
    u: "unitChanged b ((did CallStUnit newFilter)\<lparr>unit := Some udoc\<rparr>) = (f2, None)" and
    sv: "serviceChanged b ((did CallUnitService f2)\<lparr>service := Some sdoc\<rparr>) = (f4, None)" and
    w: "loop_watchers b f4 = Continue s"
    by (rule loop_init_split)
  from u have "upgradeFrom f2 = upgradeFrom ((did CallStUnit newFilter)\<lparr>unit := Some udoc\<rparr>)"
    using unitChanged_upgradeFrom[of b "(did CallStUnit newFilter)\<lparr>unit := Some udoc\<rparr>"] by simp
  then have "url (upgradeFrom ((did CallUnitService f2)\<lparr>service := Some sdoc\<rparr>)) = None"
    by (simp add: did_def newFilter_def)
  from serviceChanged_not_adopted[OF this sv] have "\<not> outUpgrade f4" .
  with loop_watchers_frame[OF w] show ?thesis by simp
qed

lemma serviceChanged_upgradeFrom [simp]: "upgradeFrom (fst (serviceChanged b f)) = upgradeFrom f"
  by (auto simp: serviceChanged_def upgradeChanged_def did_def Let_def
        split: option.splits sum.splits life.splits prod.splits)

lemma loop_init_upgradeFrom:
  assumes "loop_init b newFilter = Continue s"
  shows "url (upgradeFrom (flt s)) = adopted_charm (flt s)"
proof -
  from assms obtain udoc f2 sdoc f4 where
    u: "unitChanged b ((did CallStUnit newFilter)\<lparr>unit := Some udoc\<rparr>) = (f2, None)" and
    sv: "serviceChanged b ((did CallUnitService f2)\<lparr>service := Some sdoc\<rparr>) = (f4, None)" and
    w: "loop_watchers b f4 = Continue s"
    by (rule loop_init_split)
  from u have "upgradeFrom f2 = upgradeFrom ((did CallStUnit newFilter)\<lparr>unit := Some udoc\<rparr>)"
    using unitChanged_upgradeFrom[of b "(did CallStUnit newFilter)\<lparr>unit := Some udoc\<rparr>"] by simp
  then have "url (upgradeFrom f2) = None" by (simp add: did_def newFilter_def)
  with sv have "url (upgradeFrom f4) = None"
    using serviceChanged_upgradeFrom[of b "(did CallUnitService f2)\<lparr>service := Some sdoc\<rparr>"]
    by (simp add: did_def)
  with loop_watchers_upgradeFrom[OF w] show ?thesis
    by (simp add: adopted_charm_def split: option.splits)
qed

lemma step_arms_upgrade:
  assumes "\<not> outUpgrade (flt s)" and "step b s e = Continue s'" and "outUpgrade (flt s')"
  shows "decides_upgrade e"
proof (cases e)
  case (EvUnitChanges ok)
  with assms unitChanged_outUpgrade[of b "flt s"] show ?thesis
    by (auto split: if_splits prod.splits option.splits)
next
  case EvClearResolved
  with assms
    unitChanged_outUpgrade[of b "did CallUnitClearResolved ((flt s)\<lparr>outResolved := False\<rparr>)"]
  show ?thesis
    by (auto simp: clearResolved_case_def did_def Let_def
          split: if_splits prod.splits option.splits)
qed (use assms in \<open>auto simp: relationsChanged_def Let_def did_def split: if_splits\<close>)

text \<open>
  Claim C9. At the end of the startup phase the upgrade event is disarmed, whatever
  charm the service announces: \<open>upgradeFrom.url\<close> is still unset when the startup's
  \<open>serviceChanged\<close> runs, and holds the unit's adopted charm URL only afterwards, beside
  the service's announced URL in \<open>upgradeAvailable\<close>. From a state with the upgrade
  event disarmed, only a service notification, a SetCharm or a WantUpgradeEvent can lead
  to a state with it armed.
\<close>

theorem startup_leaves_upgrade_disarmed:
  "(loop_init b0 newFilter = Continue s0 \<longrightarrow>
      \<not> outUpgrade (flt s0) \<and> url (upgradeFrom (flt s0)) = adopted_charm (flt s0)
      \<and> url (upgradeAvailable (flt s0)) \<noteq> None)
   \<and> (\<not> outUpgrade (flt s) \<longrightarrow> step b s e = Continue s' \<longrightarrow> outUpgrade (flt s') \<longrightarrow>
        decides_upgrade e)"
  using loop_init_outUpgrade[of b0 s0] loop_init_upgradeFrom[of b0 s0]
    loop_init_available[of b0 newFilter s0] step_arms_upgrade[of s b e s']
  by blast

theorem startup_leaves_upgrade_disarmed_witness:
  "loop_init backend_foo newFilter = Continue started
   \<and> \<not> outUpgrade (flt started)
   \<and> url (upgradeFrom (flt started)) = Some ''cs:foo-1''
   \<and> adopted_charm (flt started) = Some ''cs:foo-1''
   \<and> url (upgradeAvailable (flt started)) = Some ''cs:foo-2''
   \<and> outUpgrade (upgrade_rules (flt started))
   \<and> (\<exists>s'. step backend_foo started (EvWantForcedUpgrade False) = Continue s'
          \<and> outUpgrade (flt s') \<and> decides_upgrade (EvWantForcedUpgrade False))"
proof -
  define s' where "s' = the (continued (step backend_foo started (EvWantForcedUpgrade False)))"
  have e: "step backend_foo started (EvWantForcedUpgrade False) = Continue s'"
    unfolding s'_def by code_simp
  have v: "outUpgrade (flt s')" "url (upgradeFrom (flt started)) = Some ''cs:foo-1''"
    "adopted_charm (flt started) = Some ''cs:foo-1''"
    "url (upgradeAvailable (flt started)) = Some ''cs:foo-2''"
    "outUpgrade (upgrade_rules (flt started))"
    unfolding s'_def by code_simp+
  from startup_leaves_upgrade_disarmed[of backend_foo started started backend_foo
      "EvWantForcedUpgrade False" s'] loop_init_started e v
  show ?thesis by auto
qed

subsection \<open>Discarding config events\<close>

lemma step_discard_disabled:
  "\<not> discardConfig s \<Longrightarrow> step b s e = Continue s' \<Longrightarrow>
     discardConfig s' = (e = EvConfigChanges True)"
  by (cases e)
    (auto simp: setCharm_case_def setCharm_set_def setCharm_restart_def clearResolved_case_def
          Let_def
       split: if_splits prod.splits option.splits sum.splits)

lemma step_discard_enabled:
  "discardConfig s \<Longrightarrow> step b s e = Continue s' \<Longrightarrow> discardConfig s'"
  by (cases e)
    (auto simp: setCharm_case_def setCharm_set_def setCharm_restart_def clearResolved_case_def
          Let_def
       split: if_splits prod.splits option.splits sum.splits)

lemma run_discard_enabled:
  assumes "discardConfig s" and "run s bes = Continue s'"
  shows "discardConfig s'"
proof (rule run_Continue_invariant[where P=discardConfig and Q="\<lambda>b e. True",
      OF _ assms(1) _ assms(2)])
  show "list_all (\<lambda>(b, e). True) bes" by (simp add: list_all_iff)
qed (rule step_discard_enabled)

text \<open>
  Claim C10. The loop starts with its local \<open>discardConfig\<close> channel nil; while it is
  nil a DiscardConfigEvent cannot be received, and the only case of the \<open>select\<close> that
  sets it is a config watcher notification. Once set it stays set over every schedule,
  SetCharm included, and every discard request is then accepted and disarms the
  config event.
\<close>

theorem discard_enabled_once_for_all:
  "(loop_init b0 newFilter = Continue s0 \<longrightarrow> \<not> discardConfig s0)
   \<and> (\<not> discardConfig s \<longrightarrow> step b s EvDiscardConfig = Blocked)
   \<and> (\<not> discardConfig s \<longrightarrow> step b s e = Continue s' \<longrightarrow>
        discardConfig s' = (e = EvConfigChanges True))
   \<and> (configChanges s \<longrightarrow>
        step b s (EvConfigChanges True)
          = Continue (s\<lparr>flt := (flt s)\<lparr>outConfig := True\<rparr>, discardConfig := True\<rparr>))
   \<and> (discardConfig s1 \<longrightarrow> run s1 bes = Continue s2 \<longrightarrow>
        discardConfig s2
        \<and> step b s2 EvDiscardConfig = Continue (s2\<lparr>flt := (flt s2)\<lparr>outConfig := False\<rparr>\<rparr>))"
  using loop_init_outConfig[of b0 s0] step_discard_disabled[of s b e s'] run_discard_enabled[of s1 bes s2]
  by auto

theorem discard_enabled_once_for_all_witness:
  "loop_init backend_foo newFilter = Continue started
   \<and> \<not> discardConfig started
   \<and> step backend_foo started EvDiscardConfig = Blocked
   \<and> configChanges started
   \<and> (\<exists>s1 s2. step backend_foo started (EvConfigChanges True) = Continue s1
         \<and> discardConfig s1
         \<and> run s1 [(backend_foo, EvSetCharm ''cs:foo-2''), (backend_foo, EvWantResolved)]
             = Continue s2
         \<and> discardConfig s2
         \<and> step backend_foo s2 EvDiscardConfig
             = Continue (s2\<lparr>flt := (flt s2)\<lparr>outConfig := False\<rparr>\<rparr>))
   \<and> (\<exists>s'. step backend_foo started EvWantResolved = Continue s' \<and> \<not> discardConfig s')"
proof -
  define s1 where "s1 = the (continued (step backend_foo started (EvConfigChanges True)))"
  define s2 where "s2 = the (continued (run s1
     [(backend_foo, EvSetCharm ''cs:foo-2''), (backend_foo, EvWantResolved)]))"
  define s' where "s' = the (continued (step backend_foo started EvWantResolved))"
  have c: "configChanges started" "\<not> discardConfig started" by (simp_all add: started_def)
  have e1: "step backend_foo started (EvConfigChanges True) = Continue s1"
    unfolding s1_def by code_simp
  have d1: "discardConfig s1" unfolding s1_def by code_simp
  have r: "run s1 [(backend_foo, EvSetCharm ''cs:foo-2''), (backend_foo, EvWantResolved)]
             = Continue s2"
    unfolding s2_def s1_def by code_simp
  have e': "step backend_foo started EvWantResolved = Continue s'"
    unfolding s'_def by code_simp
  from discard_enabled_once_for_all[of backend_foo started started backend_foo EvWantResolved s'
      s1 "[(backend_foo, EvSetCharm ''cs:foo-2''), (backend_foo, EvWantResolved)]" s2]
    loop_init_started c e1 d1 r e'
  show ?thesis by auto
qed

lemma upgradeChanged_alive [simp]: "alive_inv (fst (upgradeChanged f)) = alive_inv f"
  by (auto simp: upgradeChanged_def alive_inv_def split: option.splits)

lemma unitChanged_alive:
  "alive_inv f \<Longrightarrow> unit_reads_alive b \<Longrightarrow> unitChanged b f = (f', None) \<Longrightarrow> alive_inv f'"
  by (auto simp: unitChanged_def unitChanged_life_def unitChanged_resolved_def did_def Let_def
        alive_inv_def unit_reads_alive_def
        split: option.splits sum.splits life.splits prod.splits if_splits)

lemma serviceChanged_alive [simp]: "alive_inv (fst (serviceChanged b f)) = alive_inv f"
  by (auto simp: serviceChanged_def upgradeChanged_def did_def Let_def alive_inv_def
        split: option.splits sum.splits life.splits prod.splits)

lemma setCharm_alive:
  "alive_inv (flt s) \<Longrightarrow> setCharm_case b u s = Continue s' \<Longrightarrow> alive_inv (flt s')"
  by (auto simp: setCharm_case_def setCharm_set_def setCharm_restart_def upgradeChanged_def
        did_def Let_def alive_inv_def
        split: option.splits sum.splits prod.splits if_splits)

lemma clearResolved_alive:
  assumes "alive_inv (flt s)" "unit_reads_alive b" "clearResolved_case b s = Continue s'"
  shows "alive_inv (flt s')"
proof -
  let ?g = "did CallUnitClearResolved ((flt s)\<lparr>outResolved := False\<rparr>)"
  from assms(3) obtain f2 where f2: "unitChanged b ?g = (f2, None)"
      "flt s' = did SendDidClearResolved f2"
    by (auto simp: clearResolved_case_def Let_def
          split: option.splits prod.splits if_splits)
  from assms(1) have "alive_inv ?g" by (simp add: alive_inv_def did_def)
  from unitChanged_alive[OF this assms(2) f2(1)] f2(2) show ?thesis
    by (simp add: alive_inv_def did_def)
qed

lemma step_alive:
  assumes "alive_inv (flt s)" "unit_reads_alive b" "step b s e = Continue s'"
  shows "alive_inv (flt s')"
proof (cases e)
  case (EvUnitChanges ok)
  with assms show ?thesis
    by (auto split: if_splits prod.splits option.splits dest: unitChanged_alive)
next
  case (EvServiceChanges ok)
  with assms serviceChanged_alive[of b "flt s"] show ?thesis
    by (auto split: if_splits prod.splits option.splits dest!: fst_eqD[where x="serviceChanged _ _"])
next
  case (EvSetCharm u)
  with assms show ?thesis by (auto dest: setCharm_alive)
next
  case (EvWantForcedUpgrade frc)
  with assms show ?thesis
    by (auto simp: upgradeChanged_def alive_inv_def split: if_splits prod.splits option.splits)
next
  case EvClearResolved
  with assms show ?thesis by (auto dest: clearResolved_alive)
qed (use assms in \<open>auto simp: relationsChanged_def Let_def did_def alive_inv_def split: if_splits\<close>)

lemma run_alive:
  assumes "alive_inv (flt s)" "list_all (\<lambda>(b, e). unit_reads_alive b) bes"
    "run s bes = Continue s'"
  shows "alive_inv (flt s')"
  by (rule run_Continue_invariant[where P="\<lambda>s. alive_inv (flt s)"
        and Q="\<lambda>b e. unit_reads_alive b", OF _ assms])
     (rule step_alive)

lemma loop_watchers_alive:
  "loop_watchers b f = Continue s \<Longrightarrow> alive_inv (flt s) = alive_inv f"
  by (auto simp: loop_watchers_def did_def Let_def alive_inv_def split: option.splits sum.splits)

lemma loop_init_alive:
  assumes "unit_reads_alive b" "loop_init b newFilter = Continue s"
  shows "alive_inv (flt s)"
proof -
  from assms(2) obtain udoc f2 sdoc f4 where
    u: "unitChanged b ((did CallStUnit newFilter)\<lparr>unit := Some udoc\<rparr>) = (f2, None)" and
    sv: "serviceChanged b ((did CallUnitService f2)\<lparr>service := Some sdoc\<rparr>) = (f4, None)" and
    w: "loop_watchers b f4 = Continue s"
    by (rule loop_init_split)
  have "alive_inv ((did CallStUnit newFilter)\<lparr>unit := Some udoc\<rparr>)"
    by (simp add: alive_inv_def did_def newFilter_def)
  from unitChanged_alive[OF this assms(1) u]
  have "alive_inv ((did CallUnitService f2)\<lparr>service := Some sdoc\<rparr>)"
    by (simp add: alive_inv_def did_def)
  with sv serviceChanged_alive[of b "(did CallUnitService f2)\<lparr>service := Some sdoc\<rparr>"]
  have "alive_inv f4" by simp
  with loop_watchers_alive[OF w] show ?thesis by simp
qed

lemma loop_alive:
  assumes "unit_reads_alive b0" "list_all (\<lambda>(b, e). unit_reads_alive b) bes"
    "loop b0 bes = Continue s"
  shows "life (flt s) = Alive \<and> \<not> outUnitDyingClosed (flt s)"
proof -
  from assms(3) obtain s0 where s0: "loop_init b0 newFilter = Continue s0"
      "run s0 bes = Continue s"
    by (auto simp: loop_def split: outcome.splits)
  from run_alive[OF loop_init_alive[OF assms(1) s0(1)] assms(2) s0(2)] show ?thesis
    by (simp add: alive_inv_def)
qed

subsection \<open>A dying unit\<close>

lemma step_unit_dying:
  assumes "life (flt s) = Alive" "\<not> outUnitDyingClosed (flt s)"
    "unitRefresh b = Inr doc" "unitLife doc = Dying"
  shows "\<exists>s'. step b s (EvUnitChanges True) = Continue s' \<and> dying_inv (flt s')
            \<and> CloseUnitDying \<in> set (calls (flt s'))"
  using assms
  by (auto simp: unitChanged_def unitChanged_life_def unitChanged_resolved_def did_def Let_def
        dying_inv_def)

lemma unitChanged_dying:
  "dying_inv f \<Longrightarrow> unit_never_revives b \<Longrightarrow> unitChanged b f = (f', None) \<Longrightarrow> dying_inv f'"
  by (auto simp: unitChanged_def unitChanged_life_def unitChanged_resolved_def did_def Let_def
        dying_inv_def unit_never_revives_def
        split: option.splits sum.splits life.splits prod.splits if_splits)

lemma serviceChanged_dying:
  "dying_inv f \<Longrightarrow> serviceChanged b f = (f', None) \<Longrightarrow> dying_inv f'"
  by (auto simp: serviceChanged_def upgradeChanged_def did_def Let_def dying_inv_def
        split: option.splits sum.splits life.splits prod.splits if_splits)

lemma setCharm_stays_dying:
  "dying_inv (flt s) \<Longrightarrow> setCharm_case b u s = Continue s' \<Longrightarrow> dying_inv (flt s')"
  by (auto simp: setCharm_case_def setCharm_set_def setCharm_restart_def upgradeChanged_def
        did_def Let_def dying_inv_def
        split: option.splits sum.splits prod.splits if_splits)

lemma clearResolved_dying:
  assumes "dying_inv (flt s)" "unit_never_revives b" "clearResolved_case b s = Continue s'"
  shows "dying_inv (flt s')"
proof -
  define g where "g = did CallUnitClearResolved ((flt s)\<lparr>outResolved := False\<rparr>)"
  from assms(3) obtain f2 where f2: "unitChanged b g = (f2, None)"
      "flt s' = did SendDidClearResolved f2"
    by (auto simp: clearResolved_case_def Let_def g_def
          split: option.splits prod.splits if_splits)
  from assms(1) have "dying_inv g" by (simp add: g_def dying_inv_def did_def)
  from unitChanged_dying[OF this assms(2) f2(1)] f2(2) show ?thesis
    by (simp add: dying_inv_def did_def)
qed

lemma step_dying:
  assumes "dying_inv (flt s)" "unit_never_revives b" "step b s e = Continue s'"
  shows "dying_inv (flt s')"
proof (cases e)
  case (EvUnitChanges ok)
  with assms show ?thesis
    by (auto split: if_splits prod.splits option.splits dest: unitChanged_dying)
next
  case (EvServiceChanges ok)
  with assms show ?thesis
    by (auto split: if_splits prod.splits option.splits dest: serviceChanged_dying)
next
  case (EvSetCharm u)
  with assms show ?thesis by (auto dest: setCharm_stays_dying)
next
  case (EvWantForcedUpgrade frc)
  with assms show ?thesis
    by (auto simp: upgradeChanged_def dying_inv_def split: if_splits prod.splits option.splits)
next
  case EvClearResolved
  with assms show ?thesis by (auto dest: clearResolved_dying)
qed (use assms in \<open>auto simp: relationsChanged_def Let_def did_def dying_inv_def split: if_splits\<close>)

lemma run_dying:
  assumes "dying_inv (flt s)" "list_all (\<lambda>(b, e). unit_never_revives b) bes"
    "run s bes = Continue s'"
  shows "dying_inv (flt s')"
  by (rule run_Continue_invariant[where P="\<lambda>s. dying_inv (flt s)"
        and Q="\<lambda>b e. unit_never_revives b", OF _ assms])
     (rule step_dying)

lemma step_life_blind:
  "life_blind e \<Longrightarrow> step b (s\<lparr>flt := (flt s)\<lparr>life := l\<rparr>\<rparr>) e = set_life l (step b s e)"
  by (cases e) (auto simp: relationsChanged_def Let_def did_def)

lemma unitChanged_resolved_life:
  "unitChanged_resolved doc (f\<lparr>life := l\<rparr>) = (unitChanged_resolved doc f)\<lparr>life := l\<rparr>"
  by (simp add: unitChanged_resolved_def Let_def)

lemma step_unit_while_dying:
  "life (flt s) = Dying \<Longrightarrow> unitRefresh b = Inr doc \<Longrightarrow> unitLife doc = Dying \<Longrightarrow>
     step b s (EvUnitChanges True)
       = Continue (s\<lparr>flt := unitChanged_resolved doc
                             ((did CallUnitRefresh (flt s))\<lparr>unit := Some doc\<rparr>)\<rparr>)"
  by (simp add: unitChanged_def unitChanged_life_def did_def Let_def)

text \<open>
  Claim C8. As long as the unit has only been read as Alive, the filter's life is Alive
  and \<open>outUnitDying\<close> is open. When a unit notification then reads the unit as Dying,
  the loop closes \<open>outUnitDying\<close> and disarms the upgrade event. From then on, as long as the backend
  keeps to the data model (the unit is never read as Alive again), every state the loop
  reaches has the channel closed and the upgrade event disarmed, so an upgrade read
  blocks. Config, resolved and relations events are served as before: the cases that
  serve them do not depend on the filter's life, and a unit notification of a dying
  unit still arms the resolved event as \<open>unitChanged\<close> always does.
\<close>

theorem dying_unit_never_upgrades:
  "(unit_reads_alive b0 \<longrightarrow> list_all (\<lambda>(b, e). unit_reads_alive b) bes0 \<longrightarrow>
      loop b0 bes0 = Continue s \<longrightarrow>
      life (flt s) = Alive \<and> \<not> outUnitDyingClosed (flt s))
   \<and> (life (flt s) = Alive \<longrightarrow> \<not> outUnitDyingClosed (flt s) \<longrightarrow> unitRefresh b = Inr doc \<longrightarrow>
      unitLife doc = Dying \<longrightarrow>
      (\<exists>s'. step b s (EvUnitChanges True) = Continue s' \<and> dying_inv (flt s')
            \<and> CloseUnitDying \<in> set (calls (flt s'))))
   \<and> (dying_inv (flt s1) \<longrightarrow> list_all (\<lambda>(b, e). unit_never_revives b) bes \<longrightarrow>
        run s1 bes = Continue s2 \<longrightarrow>
        dying_inv (flt s2) \<and> step b2 s2 EvSendUpgrade = Blocked)
   \<and> (life_blind e \<longrightarrow> step b3 (s3\<lparr>flt := (flt s3)\<lparr>life := l\<rparr>\<rparr>) e = set_life l (step b3 s3 e))
   \<and> (life (flt s4) = Dying \<longrightarrow> unitRefresh b4 = Inr doc4 \<longrightarrow> unitLife doc4 = Dying \<longrightarrow>
        step b4 s4 (EvUnitChanges True)
          = Continue (s4\<lparr>flt := unitChanged_resolved doc4
                               ((did CallUnitRefresh (flt s4))\<lparr>unit := Some doc4\<rparr>)\<rparr>))
   \<and> unitChanged_resolved doc4 (f\<lparr>life := l\<rparr>) = (unitChanged_resolved doc4 f)\<lparr>life := l\<rparr>"
proof -
  have "dying_inv (flt s2) \<Longrightarrow> step b2 s2 EvSendUpgrade = Blocked"
    by (simp add: dying_inv_def)
  with loop_alive[of b0 bes0 s] step_unit_dying[of s b doc] run_dying[of s1 bes s2] step_life_blind[where e=e and b=b3 and s=s3 and l=l]
    step_unit_while_dying[of s4 b4 doc4] unitChanged_resolved_life[where doc=doc4 and f=f and l=l]
  show ?thesis by blast
qed

theorem dying_unit_never_upgrades_witness:
  "(\<exists>s s' s2. unit_reads_alive backend_foo
       \<and> list_all (\<lambda>(b, e). unit_reads_alive b) [(backend_foo, EvWantForcedUpgrade False)]
       \<and> loop backend_foo [(backend_foo, EvWantForcedUpgrade False)] = Continue s
       \<and> outUpgrade (flt s) \<and> life (flt s) = Alive \<and> \<not> outUnitDyingClosed (flt s)
       \<and> unitRefresh backend_dying = Inr dying_doc \<and> unitLife dying_doc = Dying
       \<and> step backend_dying s (EvUnitChanges True) = Continue s'
       \<and> dying_inv (flt s') \<and> CloseUnitDying \<in> set (calls (flt s'))
       \<and> list_all (\<lambda>(b, e). unit_never_revives b) dying_schedule
       \<and> run s' dying_schedule = Continue s2
       \<and> dying_inv (flt s2) \<and> step backend_dying s2 EvSendUpgrade = Blocked
       \<and> SendConfig \<in> set (calls (flt s2)) \<and> SendRelations [4] \<in> set (calls (flt s2))
       \<and> SendResolved ResolvedRetryHooks \<in> set (calls (flt s2))
       \<and> step backend_dying s' (EvUnitChanges True)
            = Continue (s'\<lparr>flt := unitChanged_resolved dying_doc
                 ((did CallUnitRefresh (flt s'))\<lparr>unit := Some dying_doc\<rparr>)\<rparr>))
   \<and> life_blind (EvConfigChanges True)
   \<and> step backend_foo (started\<lparr>flt := (flt started)\<lparr>life := Dying\<rparr>\<rparr>) (EvConfigChanges True)
       = set_life Dying (step backend_foo started (EvConfigChanges True))"
proof -
  define s where "s = the (continued (step backend_foo started (EvWantForcedUpgrade False)))"
  define s' where "s' = the (continued (step backend_dying s (EvUnitChanges True)))"
  define s2 where "s2 = the (continued (run s' dying_schedule))"
  have e: "loop backend_foo [(backend_foo, EvWantForcedUpgrade False)] = Continue s"
    unfolding s_def by (simp add: loop_def loop_init_started) code_simp
  have p: "outUpgrade (flt s)" "life (flt s) = Alive" "\<not> outUnitDyingClosed (flt s)"
    "unitRefresh backend_dying = Inr dying_doc" "unitLife dying_doc = Dying"
    "list_all (\<lambda>(b, e). unit_never_revives b) dying_schedule"
    "life_blind (EvConfigChanges True)"
    "unit_reads_alive backend_foo"
    "list_all (\<lambda>(b, e). unit_reads_alive b) [(backend_foo, EvWantForcedUpgrade False)]"
    unfolding s_def by code_simp+
  have e': "step backend_dying s (EvUnitChanges True) = Continue s'"
    unfolding s'_def s_def by code_simp
  have r: "run s' dying_schedule = Continue s2"
    unfolding s2_def s'_def s_def by code_simp
  have v: "SendConfig \<in> set (calls (flt s2))" "SendRelations [4] \<in> set (calls (flt s2))"
    "SendResolved ResolvedRetryHooks \<in> set (calls (flt s2))" "life (flt s') = Dying"
    unfolding s2_def s'_def s_def by code_simp+
  from dying_unit_never_upgrades[where ?b0.0=backend_foo
      and ?bes0.0="[(backend_foo, EvWantForcedUpgrade False)]" and s=s and b=backend_dying and doc=dying_doc and ?s1.0=s'
      and bes=dying_schedule and ?s2.0=s2 and ?b2.0=backend_dying and e="EvConfigChanges True"
      and ?b3.0=backend_foo and ?s3.0=started and l=Dying and ?s4.0=s' and ?b4.0=backend_dying
      and ?doc4.0=dying_doc]
    e p e' r v
  show ?thesis by auto
qed

lemma extends_log_iff:
  "extends_log base ok l = (\<exists>new. l = base @ new \<and> list_all ok new)"
proof
  assume "extends_log base ok l"
  then have "l = base @ drop (length base) l \<and> list_all ok (drop (length base) l)"
    using append_take_drop_id[of "length base" l] by (simp add: extends_log_def)
  then show "\<exists>new. l = base @ new \<and> list_all ok new" by blast
next
  assume "\<exists>new. l = base @ new \<and> list_all ok new"
  then show "extends_log base ok l" by (auto simp: extends_log_def)
qed

subsection \<open>Upgrade events after SetCharm\<close>

lemma extends_log_refl [simp]: "extends_log base ok base"
  by (simp add: extends_log_def)

lemma extends_log_append [simp]:
  "extends_log base ok l \<Longrightarrow> extends_log base ok (l @ xs) = list_all ok xs"
  by (auto simp: extends_log_iff)











subsection \<open>Service changes\<close>

lemma serviceChanged_failed:
  "serviceRefresh b = Inl err \<Longrightarrow>
     step b s (EvServiceChanges True)
       = Return (if IsNotFoundError err then Errorf ''service unexpectedly removed'' else err)
           (did CallServiceRefresh (flt s))"
  by (simp add: serviceChanged_def Let_def)

lemma serviceChanged_refreshes:
  "serviceRefresh b = Inr doc \<Longrightarrow>
     \<exists>f'. final_filter (step b s (EvServiceChanges True)) = Some f'
          \<and> upgradeAvailable f' = refreshed doc"
  by (auto simp: serviceChanged_def upgradeChanged_def refreshed_def did_def Let_def
        split: life.splits option.splits)

lemma serviceChanged_dead:
  "serviceRefresh b = Inr doc \<Longrightarrow> serviceLife doc = Dead \<Longrightarrow>
     returned (step b s (EvServiceChanges True)) = Some (Errorf ''service unexpectedly dead'')"
  by (simp add: serviceChanged_def Let_def)

lemma serviceChanged_destroy_fails:
  "serviceRefresh b = Inr doc \<Longrightarrow> serviceLife doc = Dying \<Longrightarrow> unitDestroy b = Some err \<Longrightarrow>
     returned (step b s (EvServiceChanges True)) = Some err
     \<and> log_of (step b s (EvServiceChanges True))
         = calls (flt s) @ [CallServiceRefresh, CallUnitDestroy]"
  by (simp add: serviceChanged_def Let_def did_def)

lemma serviceChanged_proceeds:
  assumes "serviceRefresh b = Inr doc"
    and "serviceLife doc = Alive \<or> serviceLife doc = Dying \<and> unitDestroy b = None"
  shows "\<exists>s'. step b s (EvServiceChanges True) = Continue s'
          \<and> flt s' = upgrade_rules (flt s')
          \<and> upgradeAvailable (flt s') = refreshed doc
          \<and> calls (flt s') = calls (flt s) @
               (if serviceLife doc = Dying then [CallServiceRefresh, CallUnitDestroy]
                else [CallServiceRefresh])"
proof -
  let ?f2 = "(did CallServiceRefresh (flt s))\<lparr>service := Some doc,
               upgradeAvailable := \<lparr>url = Some (serviceCharmURL doc), force = serviceForce doc\<rparr>\<rparr>"
  let ?f3 = "if serviceLife doc = Dying then did CallUnitDestroy ?f2 else ?f2"
  have "url (upgradeAvailable ?f3) \<noteq> None" by (simp add: did_def)
  from upgradeChanged_total[OF this] have u: "upgradeChanged ?f3 = (upgrade_rules ?f3, None)" .
  from assms have "serviceChanged b (flt s) = upgradeChanged ?f3"
    by (auto simp: serviceChanged_def Let_def)
  with u have st: "step b s (EvServiceChanges True) = Continue (s\<lparr>flt := upgrade_rules ?f3\<rparr>)"
    by simp
  have "upgradeAvailable (upgrade_rules ?f3) = refreshed doc"
    "calls (upgrade_rules ?f3) = calls (flt s) @
               (if serviceLife doc = Dying then [CallServiceRefresh, CallUnitDestroy]
                else [CallServiceRefresh])"
    by (simp_all add: upgrade_rules_def refreshed_def did_def)
  with st show ?thesis by (simp add: upgrade_rules_idem)
qed

text \<open>
  Claim C6, as amended. On a service notification the loop re-reads the service. If
  the read fails, the loop returns "service unexpectedly removed" for a not-found error
  and the error itself otherwise. If the read succeeds, \<open>upgradeAvailable\<close> is refreshed
  from the service's charm URL and force flag whatever the service's life. Then: a Dead
  service makes the loop return "service unexpectedly dead"; a Dying service makes it
  call \<open>Destroy\<close> on the unit and return the error if that fails; and for an Alive
  service, and for a Dying service whose unit was destroyed without error, the loop
  re-evaluates upgrade arming and goes on.
\<close>

theorem service_change_handling:
  "(serviceRefresh b = Inl err \<longrightarrow>
      step b s (EvServiceChanges True)
        = Return (if IsNotFoundError err then Errorf ''service unexpectedly removed'' else err)
            (did CallServiceRefresh (flt s)))
   \<and> (serviceRefresh b = Inr doc \<longrightarrow>
        (\<exists>f'. final_filter (step b s (EvServiceChanges True)) = Some f'
              \<and> upgradeAvailable f' = refreshed doc)
        \<and> (serviceLife doc = Dead \<longrightarrow>
             returned (step b s (EvServiceChanges True))
               = Some (Errorf ''service unexpectedly dead''))
        \<and> (serviceLife doc = Dying \<longrightarrow> unitDestroy b = Some err' \<longrightarrow>
             returned (step b s (EvServiceChanges True)) = Some err'
             \<and> log_of (step b s (EvServiceChanges True))
                 = calls (flt s) @ [CallServiceRefresh, CallUnitDestroy])
        \<and> (serviceLife doc = Alive \<or> serviceLife doc = Dying \<and> unitDestroy b = None \<longrightarrow>
             (\<exists>s'. step b s (EvServiceChanges True) = Continue s'
                \<and> flt s' = upgrade_rules (flt s')
                \<and> upgradeAvailable (flt s') = refreshed doc
                \<and> calls (flt s') = calls (flt s) @
                     (if serviceLife doc = Dying then [CallServiceRefresh, CallUnitDestroy]
                      else [CallServiceRefresh]))))"
  using serviceChanged_failed[of b err s] serviceChanged_refreshes[of b doc s]
    serviceChanged_dead[of b doc s] serviceChanged_destroy_fails[of b doc err' s]
    serviceChanged_proceeds[of b doc s]
  by blast

theorem service_change_handling_witness:
  "serviceRefresh backend_service_gone = Inl (NotFoundError ''service'')
   \<and> step backend_service_gone started (EvServiceChanges True)
       = Return (Errorf ''service unexpectedly removed'') (did CallServiceRefresh (flt started))
   \<and> serviceRefresh backend_service_dead = Inr (service_doc_at Dead ''cs:foo-3'' True)
   \<and> returned (step backend_service_dead started (EvServiceChanges True))
       = Some (Errorf ''service unexpectedly dead'')
   \<and> serviceRefresh backend_destroy_fails = Inr (service_doc_at Dying ''cs:foo-3'' True)
   \<and> unitDestroy backend_destroy_fails = Some (BackendError ''cannot destroy'')
   \<and> returned (step backend_destroy_fails started (EvServiceChanges True))
       = Some (BackendError ''cannot destroy'')
   \<and> serviceRefresh backend_service_dying = Inr (service_doc_at Dying ''cs:foo-3'' True)
   \<and> unitDestroy backend_service_dying = None
   \<and> (\<exists>s'. step backend_service_dying started (EvServiceChanges True) = Continue s'
          \<and> upgradeAvailable (flt s') = \<lparr>url = Some ''cs:foo-3'', force = True\<rparr>
          \<and> outUpgrade (flt s')
          \<and> calls (flt s') = calls (flt started) @ [CallServiceRefresh, CallUnitDestroy])"
proof -
  have g: "serviceRefresh backend_service_gone = Inl (NotFoundError ''service'')"
    "IsNotFoundError (NotFoundError ''service'')"
    by (simp_all add: backend_service_gone_def)
  have d: "serviceRefresh backend_service_dead = Inr (service_doc_at Dead ''cs:foo-3'' True)"
    "serviceLife (service_doc_at Dead ''cs:foo-3'' True) = Dead"
    by (simp_all add: backend_service_dead_def backend_answering_def service_doc_at_def)
  have y: "serviceRefresh backend_destroy_fails = Inr (service_doc_at Dying ''cs:foo-3'' True)"
    "unitDestroy backend_destroy_fails = Some (BackendError ''cannot destroy'')"
    "serviceRefresh backend_service_dying = Inr (service_doc_at Dying ''cs:foo-3'' True)"
    "unitDestroy backend_service_dying = None"
    "serviceLife (service_doc_at Dying ''cs:foo-3'' True) = Dying"
    "refreshed (service_doc_at Dying ''cs:foo-3'' True) = \<lparr>url = Some ''cs:foo-3'', force = True\<rparr>"
    by (simp_all add: backend_destroy_fails_def backend_service_dying_def backend_answering_def
          service_doc_at_def refreshed_def)
  have a: "upgrade_armed (step backend_service_dying started (EvServiceChanges True))"
    by code_simp
  from service_change_handling[of backend_service_gone "NotFoundError ''service''" started]
    service_change_handling[of backend_service_dead _ started
      "service_doc_at Dead ''cs:foo-3'' True"]
    service_change_handling[of backend_destroy_fails _ started
      "service_doc_at Dying ''cs:foo-3'' True" "BackendError ''cannot destroy''"]
    service_change_handling[of backend_service_dying _ started
      "service_doc_at Dying ''cs:foo-3'' True"]
    g d y a
  show ?thesis by (auto simp del: step.simps)
qed

text \<open>
  Claim C6 as stated fails: the service is Dying and announces \<open>cs:foo-3\<close>, forced;
  the unit is destroyed without error; \<open>upgradeAvailable\<close> is refreshed and the upgrade
  event, disarmed before, is armed.
\<close>

theorem dying_service_still_refreshes_upgrade:
  "\<not> upgrade_armed (loop backend_foo [])
   \<and> map_option upgradeAvailable (final_filter (loop backend_foo []))
       = Some \<lparr>url = Some ''cs:foo-2'', force = False\<rparr>
   \<and> upgrade_armed (loop backend_foo [(backend_service_dying, EvServiceChanges True)])
   \<and> map_option upgradeAvailable
        (final_filter (loop backend_foo [(backend_service_dying, EvServiceChanges True)]))
       = Some \<lparr>url = Some ''cs:foo-3'', force = True\<rparr>
   \<and> log_of (loop backend_foo [(backend_service_dying, EvServiceChanges True)])
       = calls (flt started) @ [CallServiceRefresh, CallUnitDestroy]"
  by code_simp

subsection \<open>The SetCharm request\<close>








lemma ack_restart_calls [simp]: "SendDidSetCharm \<notin> set (restart_calls b f)"
  by (simp add: restart_calls_def split: sum.splits option.splits)















subsection \<open>SetCharm as the baseline of upgrades\<close>











subsection \<open>The upgrade decision, as a whole\<close>

lemma upgradeChanged_exact:
  "upgradeChanged f =
     (if life f = Alive \<and> url (upgradeFrom f) \<noteq> None \<and> url (upgradeAvailable f) = None
      then (f, Some PanicNilDereference)
      else (upgrade_rules f, None))"
  by (auto simp: upgradeChanged_def upgrade_rules_def split: option.splits)

lemma step_want_exact:
  "url (upgradeAvailable (flt s)) \<noteq> None \<Longrightarrow>
     step b s (EvWantForcedUpgrade frc)
       = Continue (s\<lparr>flt := upgrade_rules
                      ((flt s)\<lparr>upgradeFrom := (upgradeFrom (flt s))\<lparr>force := frc\<rparr>\<rparr>)\<rparr>)"
  by (simp add: upgradeChanged_exact)

lemma step_service_proceeds:
  "serviceRefresh b = Inr doc \<Longrightarrow>
   serviceLife doc = Alive \<or> serviceLife doc = Dying \<and> unitDestroy b = None \<Longrightarrow>
     \<exists>s'. step b s (EvServiceChanges True) = Continue s' \<and> flt s' = upgrade_rules (flt s')"
  using serviceChanged_proceeds[of b doc s] by blast

text \<open>
  Claim C1. \<open>upgradeChanged\<close> is the specification's ordered rules: disarm when life is
  not Alive; disarm when \<open>upgradeFrom.url\<close> is unset; disarm when the available URL
  equals it; arm with the available URL as the pending upgrade when the available charm
  is forced or the consumer did not ask for forced upgrades only; disarm otherwise. The
  one input on which the Go code does something else is an alive unit with an adopted
  charm and a nil \<open>upgradeAvailable.url\<close>, where it dereferences nil; no state that the
  loop reaches has a nil \<open>upgradeAvailable.url\<close>. The decision is evaluated by every
  service change that does not end the loop (and none with a readable service that is
  Alive, or Dying with the unit destroyed, ends it), by every SetCharm that completes
  and by every WantUpgradeEvent request: the state after each of them is what the rules
  make of it.
\<close>

theorem upgradeChanged_implements_rules:
  "upgradeChanged f =
     (if life f = Alive \<and> url (upgradeFrom f) \<noteq> None \<and> url (upgradeAvailable f) = None
      then (f, Some PanicNilDereference)
      else (upgrade_rules f, None))
   \<and> (loop b0 bes = Continue s0 \<longrightarrow>
        url (upgradeAvailable (flt s0)) \<noteq> None
        \<and> upgradeChanged (flt s0) = (upgrade_rules (flt s0), None))
   \<and> (step b s (EvServiceChanges ok) = Continue s1 \<longrightarrow> flt s1 = upgrade_rules (flt s1))
   \<and> (serviceRefresh b = Inr doc \<longrightarrow>
        serviceLife doc = Alive \<or> serviceLife doc = Dying \<and> unitDestroy b = None \<longrightarrow>
        (\<exists>s'. step b s (EvServiceChanges True) = Continue s' \<and> flt s' = upgrade_rules (flt s')))
   \<and> (step b s (EvSetCharm u) = Continue s2 \<longrightarrow>
        flt s2 = upgrade_rules (flt s2) \<and> url (upgradeFrom (flt s2)) = Some u)
   \<and> (url (upgradeAvailable (flt s)) \<noteq> None \<longrightarrow>
        step b s (EvWantForcedUpgrade frc)
          = Continue (s\<lparr>flt := upgrade_rules
                         ((flt s)\<lparr>upgradeFrom := (upgradeFrom (flt s))\<lparr>force := frc\<rparr>\<rparr>)\<rparr>))"
  using upgradeChanged_exact[of f] upgradeChanged_total[of "flt s0"] loop_available[of b0 bes s0]
    step_service_rules[of b s ok s1] step_service_proceeds[of b doc s]
    step_setCharm_rules[of b s u s2] step_want_exact[of s b frc]
  by blast

theorem upgradeChanged_implements_rules_witness:
  "upgradeChanged (flt started) = (upgrade_rules (flt started), None)
   \<and> loop backend_foo [] = Continue started
   \<and> url (upgradeAvailable (flt started)) \<noteq> None
   \<and> outUpgrade (upgrade_rules (flt started))
   \<and> upgrade (upgrade_rules (flt started)) = Some ''cs:foo-2''
   \<and> serviceRefresh backend_foo = Inr (service_doc_at Alive ''cs:foo-2'' False)
   \<and> serviceLife (service_doc_at Alive ''cs:foo-2'' False) = Alive
   \<and> (\<exists>s1. step backend_foo started (EvServiceChanges True) = Continue s1
          \<and> flt s1 = upgrade_rules (flt s1) \<and> outUpgrade (flt s1))
   \<and> (\<exists>s2. step backend_foo started (EvSetCharm ''cs:foo-2'') = Continue s2
          \<and> flt s2 = upgrade_rules (flt s2) \<and> url (upgradeFrom (flt s2)) = Some ''cs:foo-2''
          \<and> \<not> outUpgrade (flt s2))
   \<and> step backend_foo started (EvWantForcedUpgrade True)
       = Continue (started\<lparr>flt := upgrade_rules
            ((flt started)\<lparr>upgradeFrom := (upgradeFrom (flt started))\<lparr>force := True\<rparr>\<rparr>)\<rparr>)
   \<and> \<not> outUpgrade (upgrade_rules
            ((flt started)\<lparr>upgradeFrom := (upgradeFrom (flt started))\<lparr>force := True\<rparr>\<rparr>))"
proof -
  define s1 where "s1 = the (continued (step backend_foo started (EvServiceChanges True)))"
  define s2 where "s2 = the (continued (step backend_foo started (EvSetCharm ''cs:foo-2'')))"
  have l: "loop backend_foo [] = Continue started" by (simp add: loop_def loop_init_started)
  have e1: "step backend_foo started (EvServiceChanges True) = Continue s1"
    unfolding s1_def by code_simp
  have e2: "step backend_foo started (EvSetCharm ''cs:foo-2'') = Continue s2"
    unfolding s2_def by code_simp
  have v: "outUpgrade (upgrade_rules (flt started))"
    "upgrade (upgrade_rules (flt started)) = Some ''cs:foo-2''"
    "outUpgrade (flt s1)" "\<not> outUpgrade (flt s2)"
    "\<not> outUpgrade (upgrade_rules
            ((flt started)\<lparr>upgradeFrom := (upgradeFrom (flt started))\<lparr>force := True\<rparr>\<rparr>))"
    "serviceRefresh backend_foo = Inr (service_doc_at Alive ''cs:foo-2'' False)"
    "serviceLife (service_doc_at Alive ''cs:foo-2'' False) = Alive"
    unfolding s1_def s2_def by code_simp+
  from upgradeChanged_implements_rules[where f="flt started" and ?b0.0=backend_foo
      and bes="[]" and ?s0.0=started and b=backend_foo and s=started and ok=True and ?s1.0=s1
      and u="''cs:foo-2''" and ?s2.0=s2 and frc=True
      and doc="service_doc_at Alive ''cs:foo-2'' False"] l e1 e2 v
  show ?thesis by (auto simp del: step.simps)
qed

end
